theory Spec2Isabelle
  imports Main "HOL-Library.Word"
begin

section \<open>Data model of plugin.cpp\<close>

text \<open>
  The plugin keeps a global registry \<open>std::map<int, Request> requests\<close>, a global counter
  \<open>int lastHandle\<close> and one mutex. Every request owns a heap cell
  \<open>std::shared_ptr<std::atomic_bool> canceled\<close> which the worker thread shares.

  \<^item> \<open>int\<close> is a 32-bit two's complement integer: \<open>int32\<close>, read with \<open>sint\<close>.
  \<^item> \<open>VMHandle\<close> is the host's 64-bit object handle.
  \<^item> \<open>cpr::Response::status_code\<close> is a \<open>long\<close>; the plugin is built for 64-bit Windows
    only, where \<open>long\<close> has 32 bits, so the cast \<open>(int)response.status_code\<close> is the identity.
  \<^item> The atomic cells live in an explicit store \<open>flags\<close> (a list of booleans, the address of
    a cell is its index); \<open>std::make_shared\<close> appends a fresh cell holding \<open>false\<close>.
\<close>

type_synonym int32 = "32 word"
type_synonym VMHandle = "64 word"

subsection \<open>JSON values of the nlohmann library\<close>

text \<open>
  The value kinds of \<open>nlohmann::json\<close> (\<open>value_t\<close>). Integers are 64-bit, a floating
  point number is kept as the bit pattern of its \<open>double\<close>, an object is a list of members
  with distinct keys.
\<close>

datatype JSON =
    JNull
  | JObject "(string \<times> JSON) list"
  | JArray "JSON list"
  | JString string
  | JBool bool
  | JInt "64 word"
  | JUInt "64 word"
  | JFloat "64 word"
  | JBinary "8 word list"
  | JDiscarded

datatype json_exception = parse_error | type_error | out_of_range

subsection \<open>Requests, responses, notifications\<close>

record Request =
  scriptName :: string
  vmhandle :: VMHandle
  canceled :: nat
  json :: JSON
  jsonValidated :: bool

record Response =
  status_code :: int32
  resp_text :: string

datatype papyrus_arg = PInt int32 | PString string

record papyrus_call =
  c_object :: VMHandle
  c_script :: string
  c_method :: string
  c_args :: "papyrus_arg list"

text \<open>
  The life of one \<open>CreateRequest\<close> call and of the thread it starts:
  \<^item> \<open>Starting\<close>: \<open>CreateHandle\<close> has returned, the flag is not fetched yet (line 53 to 56);
  \<^item> \<open>Fetching\<close>: the thread runs, \<open>cpr::Get\<close> has not returned (line 60 to 67);
  \<^item> \<open>Queued r\<close>: the first flag check passed and the task is queued (line 68 to 70);
  \<^item> \<open>Locking r\<close>: the task passed the second flag check and waits for the mutex
    (line 71 to 73);
  \<^item> \<open>Finished\<close>: the thread returned at a check, or the task ran to its end.
\<close>

datatype phase = Starting | Fetching | Queued Response | Locking Response | Finished

record worker =
  w_handle :: int32
  w_url :: string
  w_timeout :: int32
  w_paramKeys :: "string list"
  w_paramValues :: "string list"
  w_isJSON :: bool
  w_flag :: "nat option"
  w_params :: "(string \<times> string) list"
  w_phase :: phase

text \<open>
  The program state: the three globals of the source, the store of flag cells, the
  \<open>CreateRequest\<close> activations with their threads, and two traces: the calls of
  \<open>CallPapyrus\<close> (\<open>invoked\<close>) and the method calls it handed to the virtual machine
  (\<open>dispatched\<close>).
\<close>

record state =
  requests :: "(int32 \<times> Request) list"
  lastHandle :: int32
  flags :: "bool list"
  workers :: "worker list"
  invoked :: "papyrus_call list"
  dispatched :: "papyrus_call list"

text \<open>
  What the plugin consumes from outside: the virtual machine's \<open>FindBoundObject\<close> and the
  JSON library's \<open>JSON::parse\<close>, which throws (\<open>Inl\<close>) on a malformed text.
\<close>

record env =
  FindBoundObject :: "VMHandle \<Rightarrow> string \<Rightarrow> bool"
  JSON_parse :: "string \<Rightarrow> json_exception + JSON"

datatype message_type =
    kPostLoad | kPostPostLoad | kPreLoadGame | kPostLoadGame | kSaveGame
  | kDeleteGame | kInputLoaded | kNewGame | kDataLoaded

datatype cpp_error = SignedOverflow

definition INT_MAX :: int32 where
  "INT_MAX = 2147483647"

definition init :: state where
  "init = \<lparr>requests = [], lastHandle = 0, flags = [], workers = [],
            invoked = [], dispatched = []\<rparr>"

section \<open>The registry\<close>

text \<open>
  \<open>std::map\<close> operations on the association list. \<open>emplace\<close> does not replace an
  existing entry. The list keeps insertion order; the only iteration of the source (the loop
  of \<open>OnMessage\<close>) stores \<open>true\<close> into every flag, so the order is not observable.
\<close>

definition find_req :: "(int32 \<times> Request) list \<Rightarrow> int32 \<Rightarrow> Request option" where
  "find_req rs h = map_of rs h"

definition emplace :: "int32 \<Rightarrow> Request \<Rightarrow> (int32 \<times> Request) list \<Rightarrow> (int32 \<times> Request) list" where
  "emplace h r rs = (case find_req rs h of None \<Rightarrow> rs @ [(h, r)] | Some _ \<Rightarrow> rs)"

definition erase :: "int32 \<Rightarrow> (int32 \<times> Request) list \<Rightarrow> (int32 \<times> Request) list" where
  "erase h rs = filter (\<lambda>kv. fst kv \<noteq> h) rs"

fun assign :: "int32 \<Rightarrow> Request \<Rightarrow> (int32 \<times> Request) list \<Rightarrow> (int32 \<times> Request) list" where
  "assign h r [] = []"
| "assign h r (kv # rs) = (if fst kv = h then (h, r) # rs else kv # assign h r rs)"

definition load :: "bool list \<Rightarrow> nat \<Rightarrow> bool" where
  "load fl a = (a < length fl \<and> fl ! a)"

definition store_true :: "nat \<Rightarrow> bool list \<Rightarrow> bool list" where
  "store_true a fl = fl[a := True]"

text \<open>
  \<open>CallPapyrus\<close> (line 20 to 37): return when the object is not bound to the script,
  otherwise pack the arguments and dispatch the method call.
\<close>

definition CallPapyrus :: "env \<Rightarrow> VMHandle \<Rightarrow> string \<Rightarrow> string \<Rightarrow> papyrus_arg list \<Rightarrow> state \<Rightarrow> state" where
  "CallPapyrus e a_handle script method args s =
     (let c = \<lparr>c_object = a_handle, c_script = script, c_method = method, c_args = args\<rparr>;
          s1 = s\<lparr>invoked := invoked s @ [c]\<rparr>
      in if \<not> FindBoundObject e a_handle script then s1
         else s1\<lparr>dispatched := dispatched s1 @ [c]\<rparr>)"

text \<open>
  \<open>CreateHandle\<close> (line 39 to 47). The script name and the object handle come from the
  caller's stack frame and form, resolved by the host. \<open>++lastHandle\<close> on the largest
  \<open>int\<close> is a signed overflow, undefined behaviour in C++: the model returns the error
  \<open>SignedOverflow\<close> there and a handle everywhere else. \<open>Request{name, vmhandle}\<close>
  allocates the flag cell before \<open>emplace\<close> looks at the key.
\<close>

definition CreateHandle :: "string \<Rightarrow> VMHandle \<Rightarrow> state \<Rightarrow> cpp_error + (int32 \<times> state)" where
  "CreateHandle name vmh s =
     (if lastHandle s = INT_MAX then Inl SignedOverflow
      else let h = lastHandle s + 1;
               cell = length (flags s);
               r = \<lparr>scriptName = name, vmhandle = vmh, canceled = cell,
                    json = JNull, jsonValidated = False\<rparr>
           in Inr (h, s\<lparr>lastHandle := h, flags := flags s @ [False],
                        requests := emplace h r (requests s)\<rparr>))"

text \<open>
  The second critical section of \<open>CreateRequest\<close> (line 55 to 58):
  \<open>requests[handle].canceled\<close>. \<open>operator[]\<close> inserts a value-initialised
  \<open>Request\<close> (empty name, handle 0, a fresh flag) when the key is absent.
\<close>

definition fetch_flag :: "int32 \<Rightarrow> state \<Rightarrow> nat \<times> state" where
  "fetch_flag h s =
     (case find_req (requests s) h of
        Some r \<Rightarrow> (canceled r, s)
      | None \<Rightarrow>
          (let cell = length (flags s);
               r = \<lparr>scriptName = [], vmhandle = 0, canceled = cell,
                    json = JNull, jsonValidated = False\<rparr>
           in (cell, s\<lparr>flags := flags s @ [False], requests := requests s @ [(h, r)]\<rparr>)))"

text \<open>
  The parameters the thread builds (line 61 to 66). The loop counts in an \<open>int\<close> up to
  the size of the key list; the model counts in \<open>nat\<close>, which is the same for every
  list of fewer than \<open>2 ^ 31\<close> elements. The guard of line 62 is evaluated before the
  loop and decides alone whether any parameter is added.
\<close>

fun add_params :: "string list \<Rightarrow> string list \<Rightarrow> nat \<Rightarrow> nat \<Rightarrow> (string \<times> string) list \<Rightarrow> (string \<times> string) list" where
  "add_params ks vs 0 i params = params"
| "add_params ks vs (Suc n) i params = add_params ks vs n (Suc i) (params @ [(ks ! i, vs ! i)])"

definition build_params :: "string list \<Rightarrow> string list \<Rightarrow> (string \<times> string) list" where
  "build_params a_paramKeys a_paramValues =
     (if a_paramKeys \<noteq> [] \<and> length a_paramKeys = length a_paramValues
      then add_params a_paramKeys a_paramValues (length a_paramKeys) 0 []
      else [])"

text \<open>
  The delivery task under the mutex (line 73 to 91), for the handle, the JSON mode and the
  response the task captured. A throwing \<open>JSON::parse\<close> leaves \<open>req.json\<close> as it
  was: the exception is caught and dropped.
\<close>

definition parse_into :: "env \<Rightarrow> string \<Rightarrow> Request \<Rightarrow> Request" where
  "parse_into e body req =
     (case JSON_parse e body of
        Inl _ \<Rightarrow> req
      | Inr j \<Rightarrow> (let req1 = req\<lparr>json := j\<rparr>
                  in if j \<noteq> JDiscarded then req1\<lparr>jsonValidated := True\<rparr> else req1))"

definition deliver :: "env \<Rightarrow> int32 \<Rightarrow> bool \<Rightarrow> Response \<Rightarrow> state \<Rightarrow> state" where
  "deliver e handle isJSON response s =
     (case find_req (requests s) handle of
        None \<Rightarrow> s
      | Some req \<Rightarrow>
          if status_code response = 200 then
            (let s1 = (if isJSON
                       then s\<lparr>requests :=
                              assign handle (parse_into e (resp_text response) req) (requests s)\<rparr>
                       else s)
             in CallPapyrus e (vmhandle req) (scriptName req) ''OnRequestSuccess''
                  [PInt handle, PString (resp_text response)] s1)
          else
            CallPapyrus e (vmhandle req) (scriptName req) ''OnRequestFail''
              [PInt handle, PInt (status_code response)] s)"

text \<open>\<open>Destroy\<close> (line 112 to 124); the caller's script name is resolved by the host.\<close>

definition Destroy :: "int32 \<Rightarrow> string \<Rightarrow> state \<Rightarrow> state" where
  "Destroy a_handle caller s =
     (case find_req (requests s) a_handle of
        None \<Rightarrow> s
      | Some req \<Rightarrow>
          if caller = scriptName req
          then s\<lparr>flags := store_true (canceled req) (flags s),
                 requests := erase a_handle (requests s)\<rparr>
          else s)"

text \<open>\<open>OnMessage\<close> (line 167 to 175).\<close>

definition OnMessage :: "message_type \<Rightarrow> state \<Rightarrow> state" where
  "OnMessage m s =
     (if m = kPostLoadGame
      then s\<lparr>flags := fold (\<lambda>kv fl. store_true (canceled (snd kv)) fl) (requests s) (flags s),
             requests := []\<rparr>
      else s)"

text \<open>\<open>ValidateJSON\<close> (line 126 to 131).\<close>

definition ValidateJSON :: "state \<Rightarrow> int32 \<Rightarrow> bool" where
  "ValidateJSON s a_handle =
     (case find_req (requests s) a_handle of None \<Rightarrow> False | Some req \<Rightarrow> jsonValidated req)"


section \<open>Threads and interleavings\<close>

text \<open>
  Every critical section under \<open>requestMutex\<close> is one step. The only accesses outside
  the mutex are the two \<open>canceledFlag->load()\<close> of a worker, each a step of its own, so
  a flag check can fall on either side of any critical section. Inside a critical section
  the flags are only ever set to true, each thread reads no flag but its own, and the
  registry is read and written under the mutex only: a load that falls between the store
  of \<open>Destroy\<close> or \<open>OnMessage\<close> and the end of that section reads what it would read
  after the section, so taking the sections as single steps loses no behaviour. The two
  critical sections of \<open>CreateRequest\<close> are two steps, and other steps can fall between
  them. A run ends with \<open>SignedOverflow\<close> where \<open>CreateHandle\<close> does. The events:
  \<^item> \<open>E_CreateRequest\<close>: a call of \<open>CreateRequest\<close> up to the return of
    \<open>CreateHandle\<close> (\<open>LoadURL\<close> passes \<open>isJSON = false\<close>, \<open>LoadJSON\<close> passes true);
  \<^item> \<open>E_Spawn i\<close>: activation \<open>i\<close> fetches the flag and starts its thread, which
    builds the parameters and issues \<open>cpr::Get\<close>;
  \<^item> \<open>E_Complete i r\<close>: \<open>cpr::Get\<close> of thread \<open>i\<close> returns \<open>r\<close>, the thread checks
    the flag and queues the task;
  \<^item> \<open>E_Check i\<close>: the task of \<open>i\<close> starts and checks the flag;
  \<^item> \<open>E_Deliver i\<close>: the task of \<open>i\<close> takes the mutex and runs to its end;
  \<^item> \<open>E_Destroy h c\<close>: a script of type \<open>c\<close> calls \<open>Destroy(h)\<close>;
  \<^item> \<open>E_Message m\<close>: the host sends message \<open>m\<close> to \<open>OnMessage\<close>.
  An event that is not enabled (a thread that is not in the phase the event needs) leaves
  the state as it is.
\<close>

datatype event =
    E_CreateRequest string VMHandle string int32 "string list" "string list" bool
  | E_Spawn nat
  | E_Complete nat Response
  | E_Check nat
  | E_Deliver nat
  | E_Destroy int32 string
  | E_Message message_type

definition LoadURL :: "string \<Rightarrow> VMHandle \<Rightarrow> string \<Rightarrow> int32 \<Rightarrow> string list \<Rightarrow> string list \<Rightarrow> event" where
  "LoadURL name vmh a_url a_timeout a_paramKeys a_paramValues =
     E_CreateRequest name vmh a_url a_timeout a_paramKeys a_paramValues False"

definition LoadJSON :: "string \<Rightarrow> VMHandle \<Rightarrow> string \<Rightarrow> int32 \<Rightarrow> string list \<Rightarrow> string list \<Rightarrow> event" where
  "LoadJSON name vmh a_url a_timeout a_paramKeys a_paramValues =
     E_CreateRequest name vmh a_url a_timeout a_paramKeys a_paramValues True"

definition canceledFlag_load :: "state \<Rightarrow> worker \<Rightarrow> bool" where
  "canceledFlag_load s w = (case w_flag w of None \<Rightarrow> False | Some a \<Rightarrow> load (flags s) a)"

definition set_phase :: "nat \<Rightarrow> phase \<Rightarrow> state \<Rightarrow> state" where
  "set_phase i p s = s\<lparr>workers := (workers s)[i := (workers s ! i)\<lparr>w_phase := p\<rparr>]\<rparr>"

definition phase_of :: "state \<Rightarrow> nat \<Rightarrow> phase option" where
  "phase_of s i = (if i < length (workers s) then Some (w_phase (workers s ! i)) else None)"

definition spawn :: "nat \<Rightarrow> state \<Rightarrow> state" where
  "spawn i s =
     (let w = workers s ! i;
          (cell, s1) = fetch_flag (w_handle w) s
      in s1\<lparr>workers := (workers s1)[i := w\<lparr>w_flag := Some cell,
             w_params := build_params (w_paramKeys w) (w_paramValues w),
             w_phase := Fetching\<rparr>]\<rparr>)"

fun step :: "env \<Rightarrow> event \<Rightarrow> state \<Rightarrow> cpp_error + state" where
  "step e (E_CreateRequest name vmh a_url a_timeout a_paramKeys a_paramValues isJSON) s =
     (case CreateHandle name vmh s of
        Inl err \<Rightarrow> Inl err
      | Inr (h, s1) \<Rightarrow>
          Inr (s1\<lparr>workers := workers s1 @
                 [\<lparr>w_handle = h, w_url = a_url, w_timeout = a_timeout,
                   w_paramKeys = a_paramKeys, w_paramValues = a_paramValues,
                   w_isJSON = isJSON, w_flag = None, w_params = [],
                   w_phase = Starting\<rparr>]\<rparr>))"
| "step e (E_Spawn i) s =
     (case phase_of s i of
        Some Starting \<Rightarrow> Inr (spawn i s)
      | _ \<Rightarrow> Inr s)"
| "step e (E_Complete i r) s =
     (case phase_of s i of
        Some Fetching \<Rightarrow>
          Inr (if canceledFlag_load s (workers s ! i) then set_phase i Finished s
               else set_phase i (Queued r) s)
      | _ \<Rightarrow> Inr s)"
| "step e (E_Check i) s =
     (case phase_of s i of
        Some (Queued r) \<Rightarrow>
          Inr (if canceledFlag_load s (workers s ! i) then set_phase i Finished s
               else set_phase i (Locking r) s)
      | _ \<Rightarrow> Inr s)"
| "step e (E_Deliver i) s =
     (case phase_of s i of
        Some (Locking r) \<Rightarrow>
          Inr (set_phase i Finished
                 (deliver e (w_handle (workers s ! i)) (w_isJSON (workers s ! i)) r s))
      | _ \<Rightarrow> Inr s)"
| "step e (E_Destroy h caller) s = Inr (Destroy h caller s)"
| "step e (E_Message m) s = Inr (OnMessage m s)"

fun run :: "env \<Rightarrow> event list \<Rightarrow> state \<Rightarrow> cpp_error + state" where
  "run e [] s = Inr s"
| "run e (ev # evs) s = (case step e ev s of Inl err \<Rightarrow> Inl err | Inr s1 \<Rightarrow> run e evs s1)"


section \<open>The accessors\<close>

subsection \<open>JSON pointers\<close>

text \<open>
  Modelled from the spec: the JSON library (\<open>nlohmann/json.hpp\<close>: \<open>json_pointer\<close>,
  \<open>contains\<close>, \<open>operator[]\<close> and \<open>get<T>\<close>) is not among the sources. The
  specification says that a path is a pointer into the decoded document, its segments separated
  by a delimiter, numeric segments indexing arrays and the other segments indexing object
  fields, and that a value of the wrong type is not converted. The definitions follow the
  library's reading of that: the delimiter is \<open>/\<close>, \<open>~1\<close> and \<open>~0\<close> stand for
  \<open>/\<close> and \<open>~\<close> inside a segment, an array index is a decimal number without
  leading zero, and each function throws (\<open>Inl\<close>) where the library does.
  \<open>operator[]\<close> is called only after \<open>contains\<close> has answered true, where it finds
  the value without inserting anything; \<open>ptr_get\<close> is the value it returns.
\<close>

definition is_digit :: "char \<Rightarrow> bool" where
  "is_digit c = (48 \<le> (of_char c :: nat) \<and> (of_char c :: nat) \<le> 57)"

definition digit_val :: "char \<Rightarrow> nat" where
  "digit_val c = (of_char c :: nat) - 48"

definition decimal :: "string \<Rightarrow> nat" where
  "decimal t = foldl (\<lambda>n c. 10 * n + digit_val c) 0 t"

fun tokens :: "string \<Rightarrow> string list" where
  "tokens [] = [[]]"
| "tokens (c # cs) =
     (if c = CHR ''/'' then [] # tokens cs
      else (case tokens cs of [] \<Rightarrow> [[c]] | t # ts \<Rightarrow> (c # t) # ts))"

fun escapes_ok :: "string \<Rightarrow> bool" where
  "escapes_ok [] = True"
| "escapes_ok (c # cs) =
     (if c = CHR ''~''
      then (case cs of [] \<Rightarrow> False | d # ds \<Rightarrow> (d = CHR ''0'' \<or> d = CHR ''1'') \<and> escapes_ok cs)
      else escapes_ok cs)"

fun replace_substring :: "char \<Rightarrow> char \<Rightarrow> char \<Rightarrow> string \<Rightarrow> string" where
  "replace_substring a b t (c # d # cs) =
     (if c = a \<and> d = b then t # replace_substring a b t cs
      else c # replace_substring a b t (d # cs))"
| "replace_substring a b t cs = cs"

definition unescape :: "string \<Rightarrow> string" where
  "unescape t = replace_substring (CHR ''~'') (CHR ''0'') (CHR ''~'')
                  (replace_substring (CHR ''~'') (CHR ''1'') (CHR ''/'') t)"

definition json_pointer :: "string \<Rightarrow> json_exception + string list" where
  "json_pointer s =
     (case s of
        [] \<Rightarrow> Inr []
      | c # cs \<Rightarrow>
          if c \<noteq> CHR ''/'' then Inl parse_error
          else if list_all escapes_ok (tokens cs) then Inr (map unescape (tokens cs))
          else Inl parse_error)"

definition array_index :: "string \<Rightarrow> json_exception + nat" where
  "array_index t =
     (if length t > 1 \<and> hd t = CHR ''0'' then Inl parse_error
      else if length t > 1 \<and> \<not> (is_digit (hd t) \<and> hd t \<noteq> CHR ''0'') then Inl parse_error
      else if t = [] \<or> \<not> list_all is_digit t then Inl out_of_range
      else if decimal t \<ge> 2 ^ 64 - 1 then Inl out_of_range
      else Inr (decimal t))"

definition array_token :: "string \<Rightarrow> json_exception + nat option" where
  "array_token t =
     (if t = ''-'' then Inr None
      else if length t = 1 \<and> \<not> is_digit (hd t) then Inr None
      else if length t > 1 \<and> \<not> (is_digit (hd t) \<and> hd t \<noteq> CHR ''0'' \<and> list_all is_digit (tl t))
      then Inr None
      else (case array_index t of Inl ex \<Rightarrow> Inl ex | Inr i \<Rightarrow> Inr (Some i)))"

fun ptr_contains :: "string list \<Rightarrow> JSON \<Rightarrow> json_exception + bool" where
  "ptr_contains [] j = Inr True"
| "ptr_contains (t # ts) j =
     (case j of
        JObject ms \<Rightarrow>
          (case map_of ms t of None \<Rightarrow> Inr False | Some v \<Rightarrow> ptr_contains ts v)
      | JArray xs \<Rightarrow>
          (case array_token t of
             Inl ex \<Rightarrow> Inl ex
           | Inr None \<Rightarrow> Inr False
           | Inr (Some i) \<Rightarrow> if i \<ge> length xs then Inr False else ptr_contains ts (xs ! i))
      | _ \<Rightarrow> Inr False)"

fun ptr_get :: "string list \<Rightarrow> JSON \<Rightarrow> json_exception + JSON" where
  "ptr_get [] j = Inr j"
| "ptr_get (t # ts) j =
     (case j of
        JObject ms \<Rightarrow>
          (case map_of ms t of None \<Rightarrow> Inr JNull | Some v \<Rightarrow> ptr_get ts v)
      | JArray xs \<Rightarrow>
          (if t = ''-'' then Inr JNull
           else (case array_index t of
                   Inl ex \<Rightarrow> Inl ex
                 | Inr i \<Rightarrow> if i \<ge> length xs then Inr JNull else ptr_get ts (xs ! i)))
      | JNull \<Rightarrow> Inr JNull
      | _ \<Rightarrow> Inl out_of_range)"


subsection \<open>Conversions\<close>

text \<open>
  Modelled from the spec: \<open>get<T>\<close> of the JSON library. A string converts to a string
  only and a boolean to a boolean only; a number or a boolean converts to \<open>int\<close> and to
  \<open>float\<close>; everything else throws. The floating point conversions themselves are
  parameters, on the bit patterns of \<open>double\<close> and \<open>float\<close>.
\<close>

record fp_conv =
  double_to_int :: "64 word \<Rightarrow> int32"
  double_to_float :: "64 word \<Rightarrow> 32 word"
  int_to_float :: "64 word \<Rightarrow> 32 word"
  uint_to_float :: "64 word \<Rightarrow> 32 word"

definition get_string :: "JSON \<Rightarrow> json_exception + string" where
  "get_string j = (case j of JString s \<Rightarrow> Inr s | _ \<Rightarrow> Inl type_error)"

definition get_bool :: "JSON \<Rightarrow> json_exception + bool" where
  "get_bool j = (case j of JBool b \<Rightarrow> Inr b | _ \<Rightarrow> Inl type_error)"

definition get_int :: "fp_conv \<Rightarrow> JSON \<Rightarrow> json_exception + int32" where
  "get_int fp j =
     (case j of
        JUInt n \<Rightarrow> Inr (ucast n)
      | JInt n \<Rightarrow> Inr (ucast n)
      | JFloat d \<Rightarrow> Inr (double_to_int fp d)
      | JBool b \<Rightarrow> Inr (if b then 1 else 0)
      | _ \<Rightarrow> Inl type_error)"

definition get_float :: "fp_conv \<Rightarrow> JSON \<Rightarrow> json_exception + 32 word" where
  "get_float fp j =
     (case j of
        JUInt n \<Rightarrow> Inr (uint_to_float fp n)
      | JInt n \<Rightarrow> Inr (int_to_float fp n)
      | JFloat d \<Rightarrow> Inr (double_to_float fp d)
      | JBool b \<Rightarrow> Inr (int_to_float fp (if b then 1 else 0))
      | _ \<Rightarrow> Inl type_error)"

text \<open>
  \<open>GetJSONValue<T>\<close> (line 133 to 149) and its four instances (line 151 to 165). Every
  exception inside the \<open>try\<close> block ends in \<open>return a_default\<close>.
\<close>

definition GetJSONValue :: "(JSON \<Rightarrow> json_exception + 'a) \<Rightarrow> state \<Rightarrow> int32 \<Rightarrow> string \<Rightarrow> 'a \<Rightarrow> 'a" where
  "GetJSONValue get s a_handle a_path a_default =
     (case find_req (requests s) a_handle of
        None \<Rightarrow> a_default
      | Some req \<Rightarrow>
          (case json_pointer a_path of
             Inl ex \<Rightarrow> a_default
           | Inr ptr \<Rightarrow>
               (case ptr_contains ptr (json req) of
                  Inl ex \<Rightarrow> a_default
                | Inr False \<Rightarrow> a_default
                | Inr True \<Rightarrow>
                    (case ptr_get ptr (json req) of
                       Inl ex \<Rightarrow> a_default
                     | Inr v \<Rightarrow> (case get v of Inl ex \<Rightarrow> a_default | Inr x \<Rightarrow> x)))))"

definition GetJSONString :: "state \<Rightarrow> int32 \<Rightarrow> string \<Rightarrow> string \<Rightarrow> string" where
  "GetJSONString s a_handle a_path a_default = GetJSONValue get_string s a_handle a_path a_default"

definition GetJSONInt :: "fp_conv \<Rightarrow> state \<Rightarrow> int32 \<Rightarrow> string \<Rightarrow> int32 \<Rightarrow> int32" where
  "GetJSONInt fp s a_handle a_path a_default = GetJSONValue (get_int fp) s a_handle a_path a_default"

definition GetJSONFloat :: "fp_conv \<Rightarrow> state \<Rightarrow> int32 \<Rightarrow> string \<Rightarrow> 32 word \<Rightarrow> 32 word" where
  "GetJSONFloat fp s a_handle a_path a_default = GetJSONValue (get_float fp) s a_handle a_path a_default"

definition GetJSONBool :: "state \<Rightarrow> int32 \<Rightarrow> string \<Rightarrow> bool \<Rightarrow> bool" where
  "GetJSONBool s a_handle a_path a_default = GetJSONValue get_bool s a_handle a_path a_default"

subsection \<open>The accessor as the specification words it\<close>

text \<open>
  \<open>spec_GetField\<close> follows the specification's sentence: the default when the handle is
  absent, or the decoded document is absent, or the path does not resolve, or the resolved
  value is not convertible; the converted value otherwise. \<open>resolve\<close> walks the
  document along the segments.
\<close>

definition segment_index :: "string \<Rightarrow> nat option" where
  "segment_index t =
     (if t \<noteq> [] \<and> list_all is_digit t \<and> (length t > 1 \<longrightarrow> hd t \<noteq> CHR ''0'')
         \<and> decimal t < 2 ^ 64 - 1
      then Some (decimal t) else None)"

fun resolve :: "string list \<Rightarrow> JSON \<Rightarrow> JSON option" where
  "resolve [] j = Some j"
| "resolve (t # ts) (JObject ms) =
     (case map_of ms t of None \<Rightarrow> None | Some v \<Rightarrow> resolve ts v)"
| "resolve (t # ts) (JArray xs) =
     (case segment_index t of
        None \<Rightarrow> None
      | Some i \<Rightarrow> if i < length xs then resolve ts (xs ! i) else None)"
| "resolve (t # ts) j = None"

definition path_resolves :: "JSON \<Rightarrow> string \<Rightarrow> JSON option" where
  "path_resolves doc path =
     (case json_pointer path of Inl ex \<Rightarrow> None | Inr ptr \<Rightarrow> resolve ptr doc)"

definition spec_GetField :: "(JSON \<Rightarrow> json_exception + 'a) \<Rightarrow> state \<Rightarrow> int32 \<Rightarrow> string \<Rightarrow> 'a \<Rightarrow> 'a" where
  "spec_GetField convert s handle path dflt =
     (case find_req (requests s) handle of
        None \<Rightarrow> dflt
      | Some req \<Rightarrow>
          if json req = JNull then dflt
          else (case path_resolves (json req) path of
                  None \<Rightarrow> dflt
                | Some v \<Rightarrow> (case convert v of Inl ex \<Rightarrow> dflt | Inr x \<Rightarrow> x)))"

section \<open>Invariants of the reachable states\<close>

text \<open>
  What holds in every state that a run from \<open>init\<close> reaches:
  \<^item> \<open>handles_ok\<close>: the \<open>k\<close>-th call of \<open>CreateRequest\<close> holds handle \<open>k\<close>,
    \<open>lastHandle\<close> counts the calls, and the count is below \<open>2 ^ 31\<close>;
  \<^item> \<open>registry_ok\<close>: every key of the registry is a handle that was handed out, and the
    flag of every entry is an allocated cell;
  \<^item> \<open>flags_ok\<close>: a started thread holds the flag of its entry while the entry exists,
    and a flag that reads true once the entry is gone;
  \<^item> \<open>docs_ok\<close>: the entry of a request whose delivery has not run, and of every
    request without JSON mode, holds no document and is not validated;
  \<^item> \<open>calls_ok\<close>: every call of \<open>CallPapyrus\<close> carries the handle of a finished
    delivery as its first argument, and every dispatched call was invoked.
\<close>

definition handles_ok :: "state \<Rightarrow> bool" where
  "handles_ok s \<longleftrightarrow>
     length (workers s) < 2 ^ 31 \<and> lastHandle s = of_nat (length (workers s)) \<and>
     (\<forall>i < length (workers s). w_handle (workers s ! i) = of_nat (Suc i))"

definition registry_ok :: "state \<Rightarrow> bool" where
  "registry_ok s \<longleftrightarrow>
     (\<forall>h r. find_req (requests s) h = Some r \<longrightarrow>
        (\<exists>i < length (workers s). h = of_nat (Suc i)) \<and> canceled r < length (flags s))"

definition flag_linked :: "state \<Rightarrow> worker \<Rightarrow> bool" where
  "flag_linked s w \<longleftrightarrow>
     (case w_flag w of
        None \<Rightarrow> False
      | Some a \<Rightarrow> a < length (flags s) \<and>
          (case find_req (requests s) (w_handle w) of
             Some r \<Rightarrow> canceled r = a
           | None \<Rightarrow> flags s ! a))"

definition flags_ok :: "state \<Rightarrow> bool" where
  "flags_ok s \<longleftrightarrow>
     (\<forall>i < length (workers s).
        if w_phase (workers s ! i) = Starting then w_flag (workers s ! i) = None
        else flag_linked s (workers s ! i))"

definition undelivered :: "state \<Rightarrow> int32 \<Rightarrow> bool" where
  "undelivered s h \<longleftrightarrow>
     (case find_req (requests s) h of
        None \<Rightarrow> True
      | Some r \<Rightarrow> json r = JNull \<and> \<not> jsonValidated r)"

definition docs_ok :: "state \<Rightarrow> bool" where
  "docs_ok s \<longleftrightarrow>
     (\<forall>i < length (workers s).
        w_phase (workers s ! i) \<noteq> Finished \<or> \<not> w_isJSON (workers s ! i) \<longrightarrow>
        undelivered s (w_handle (workers s ! i)))"

text \<open>A call of \<open>CallPapyrus\<close> is about the handle it passes as its first argument.\<close>

definition about :: "int32 \<Rightarrow> papyrus_call \<Rightarrow> bool" where
  "about h c = (case c_args c of PInt k # args \<Rightarrow> k = h | _ \<Rightarrow> False)"

definition calls_ok :: "state \<Rightarrow> bool" where
  "calls_ok s \<longleftrightarrow>
     (\<forall>c \<in> set (invoked s). \<exists>i < length (workers s).
        w_phase (workers s ! i) = Finished \<and> about (w_handle (workers s ! i)) c) \<and>
     set (dispatched s) \<subseteq> set (invoked s)"

definition inv :: "state \<Rightarrow> bool" where
  "inv s \<longleftrightarrow> handles_ok s \<and> registry_ok s \<and> flags_ok s \<and> docs_ok s \<and> calls_ok s"

text \<open>The events that allocate a handle.\<close>

definition is_alloc :: "event \<Rightarrow> bool" where
  "is_alloc ev = (case ev of E_CreateRequest n v u t ks vs j \<Rightarrow> True | _ \<Rightarrow> False)"

text \<open>
  A started thread is silenced when its entry is gone and its flag reads true.
\<close>

definition silenced :: "state \<Rightarrow> nat \<Rightarrow> bool" where
  "silenced s i \<longleftrightarrow>
     i < length (workers s) \<and> w_phase (workers s ! i) \<noteq> Starting \<and>
     find_req (requests s) (w_handle (workers s ! i)) = None \<and>
     canceledFlag_load s (workers s ! i)"

section \<open>Sample data\<close>

text \<open>
  Sample surroundings for the concrete runs below: a virtual machine in which every object
  is bound, and a JSON library that knows the document \<open>{"a":{"b":42}}\<close> and rejects
  every other text.
\<close>

definition sample_doc :: JSON where
  "sample_doc = JObject [(''a'', JObject [(''b'', JUInt 42)])]"

definition sample_body :: string where
  "sample_body = [CHR ''{'', CHR 0x22, CHR ''a'', CHR 0x22, CHR '':'', CHR ''{'', CHR 0x22,
                  CHR ''b'', CHR 0x22, CHR '':'', CHR ''4'', CHR ''2'', CHR ''}'', CHR ''}'']"

definition sample_env :: env where
  "sample_env = \<lparr>FindBoundObject = (\<lambda>h n. True),
                  JSON_parse = (\<lambda>t. if t = sample_body then Inr sample_doc else Inl parse_error)\<rparr>"

definition sample_fp :: fp_conv where
  "sample_fp = \<lparr>double_to_int = (\<lambda>d. 0), double_to_float = (\<lambda>d. 0),
                 int_to_float = (\<lambda>n. 0), uint_to_float = (\<lambda>n. 0)\<rparr>"

definition sample_fetching :: state where
  "sample_fetching =
     \<lparr>requests = [(1, \<lparr>scriptName = ''A'', vmhandle = 7, canceled = 0, json = JNull,
                         jsonValidated = False\<rparr>)],
      lastHandle = 1, flags = [False],
      workers = [\<lparr>w_handle = 1, w_url = ''u'', w_timeout = 5000, w_paramKeys = [],
                  w_paramValues = [], w_isJSON = False, w_flag = Some 0, w_params = [],
                  w_phase = Fetching\<rparr>],
      invoked = [], dispatched = []\<rparr>"

definition sample_request :: Request where
  "sample_request = \<lparr>scriptName = ''A'', vmhandle = 7, canceled = 0, json = JNull,
                      jsonValidated = False\<rparr>"

definition sample_worker :: "phase \<Rightarrow> worker" where
  "sample_worker p = \<lparr>w_handle = 1, w_url = ''u'', w_timeout = 5000, w_paramKeys = [],
                       w_paramValues = [], w_isJSON = False, w_flag = Some 0, w_params = [],
                       w_phase = p\<rparr>"

definition ok_response :: Response where
  "ok_response = \<lparr>status_code = 200, resp_text = sample_body\<rparr>"

definition not_found_response :: Response where
  "not_found_response = \<lparr>status_code = 404, resp_text = ''gone''\<rparr>"

definition malformed_response :: Response where
  "malformed_response = \<lparr>status_code = 200, resp_text = ''{oops''\<rparr>"

definition sample_json_locking :: "Response \<Rightarrow> state" where
  "sample_json_locking r =
     \<lparr>requests = [(1, sample_request)], lastHandle = 1, flags = [False],
      workers = [(sample_worker (Locking r))\<lparr>w_isJSON := True\<rparr>],
      invoked = [], dispatched = []\<rparr>"

definition sample_created :: state where
  "sample_created =
     \<lparr>requests = [(1, sample_request)], lastHandle = 1, flags = [False],
      workers = [], invoked = [], dispatched = []\<rparr>"

definition sample_delivered :: state where
  "sample_delivered =
     \<lparr>requests = [(1, sample_request)], lastHandle = 1, flags = [False],
      workers = [sample_worker Finished],
      invoked = [\<lparr>c_object = 7, c_script = ''A'', c_method = ''OnRequestSuccess'',
                  c_args = [PInt 1, PString sample_body]\<rparr>],
      dispatched = [\<lparr>c_object = 7, c_script = ''A'', c_method = ''OnRequestSuccess'',
                  c_args = [PInt 1, PString sample_body]\<rparr>]\<rparr>"

definition sample_locking :: state where
  "sample_locking =
     \<lparr>requests = [(1, sample_request)], lastHandle = 1, flags = [False],
      workers = [sample_worker (Locking ok_response)], invoked = [], dispatched = []\<rparr>"

definition sample_silenced :: state where
  "sample_silenced =
     \<lparr>requests = [], lastHandle = 1, flags = [True],
      workers = [sample_worker Finished], invoked = [], dispatched = []\<rparr>"

section \<open>Basic facts about the registry operations\<close>

lemmas exec_defs = init_def LoadURL_def LoadJSON_def CreateHandle_def INT_MAX_def emplace_def
  find_req_def erase_def phase_of_def spawn_def fetch_flag_def build_params_def set_phase_def
  canceledFlag_load_def load_def store_true_def deliver_def CallPapyrus_def Destroy_def
  OnMessage_def parse_into_def sample_env_def sample_doc_def sample_body_def Let_def

lemma find_erase: "find_req (erase h rs) k = (if k = h then None else find_req rs k)"
  by (induction rs) (auto simp: find_req_def erase_def)

lemma keys_assign: "map fst (assign h r rs) = map fst rs"
  by (induction rs) auto

lemma find_assign:
  "find_req (assign h r rs) k = (if k = h \<and> find_req rs h \<noteq> None then Some r else find_req rs k)"
  by (induction rs) (auto simp: find_req_def)

lemma requests_CallPapyrus: "requests (CallPapyrus e a n m args s) = requests s"
  by (simp add: CallPapyrus_def Let_def)

lemma keys_deliver: "map fst (requests (deliver e h isJSON r s)) = map fst (requests s)"
  by (simp add: deliver_def requests_CallPapyrus keys_assign Let_def split: option.splits)

lemma find_None_keys: "find_req rs h = None \<longleftrightarrow> h \<notin> set (map fst rs)"
  by (simp add: find_req_def map_of_eq_None_iff)

section \<open>Cancelling by the owner only\<close>

text \<open>
  C4. \<open>Destroy(handle)\<close> changes nothing when the handle is absent, and nothing when the
  caller's script name differs from the stored one: the entry stays and no flag is written.
  When the names are equal it stores \<open>true\<close> into the request's flag and erases the entry.
  Whenever \<open>Destroy\<close> changes the state at all, the entry was present and the names equal.
\<close>

theorem Destroy_owner_only:
  "(find_req (requests s) h = None \<longrightarrow> Destroy h caller s = s) \<and>
   (\<forall>req. find_req (requests s) h = Some req \<and> caller \<noteq> scriptName req \<longrightarrow>
          Destroy h caller s = s) \<and>
   (\<forall>req. find_req (requests s) h = Some req \<and> caller = scriptName req \<longrightarrow>
          find_req (requests (Destroy h caller s)) h = None \<and>
          flags (Destroy h caller s) = (flags s)[canceled req := True]) \<and>
   (Destroy h caller s \<noteq> s \<longrightarrow>
      (\<exists>req. find_req (requests s) h = Some req \<and> caller = scriptName req))"
  by (auto simp: Destroy_def find_erase store_true_def split: option.splits if_splits)

theorem Destroy_owner_only_witness:
  "run sample_env [LoadURL ''A'' 7 ''u'' 5000 [] [], E_Spawn 0] init = Inr sample_fetching \<and>
   find_req (requests sample_fetching) 2 = None \<and>
   Destroy 2 ''A'' sample_fetching = sample_fetching \<and>
   find_req (requests sample_fetching) 1 \<noteq> None \<and>
   ''B'' \<noteq> scriptName (the (find_req (requests sample_fetching) 1)) \<and>
   Destroy 1 ''B'' sample_fetching = sample_fetching \<and>
   ''A'' = scriptName (the (find_req (requests sample_fetching) 1)) \<and>
   find_req (requests (Destroy 1 ''A'' sample_fetching)) 1 = None \<and>
   flags sample_fetching = [False] \<and>
   flags (Destroy 1 ''A'' sample_fetching) = [True] \<and>
   Destroy 1 ''A'' sample_fetching \<noteq> sample_fetching"
  using Destroy_owner_only [of sample_fetching 2 "''A''"]
        Destroy_owner_only [of sample_fetching 1 "''B''"]
        Destroy_owner_only [of sample_fetching 1 "''A''"]
  by (simp add: exec_defs sample_fetching_def)

section \<open>Query parameters\<close>

lemma add_params_zip:
  "n + i \<le> length ks \<Longrightarrow> n + i \<le> length vs \<Longrightarrow>
   add_params ks vs n i ps = ps @ zip (take n (drop i ks)) (take n (drop i vs))"
proof (induction n arbitrary: i ps)
  case 0
  then show ?case by simp
next
  case (Suc n)
  from Suc.prems have i: "i < length ks" "i < length vs" by simp_all
  have k: "take (Suc n) (drop i ks) = ks ! i # take n (drop (Suc i) ks)"
    using i by (simp add: Cons_nth_drop_Suc [symmetric])
  have v: "take (Suc n) (drop i vs) = vs ! i # take n (drop (Suc i) vs)"
    using i by (simp add: Cons_nth_drop_Suc [symmetric])
  show ?case using Suc.prems by (simp add: Suc.IH k v)
qed

lemma build_params_eq:
  "build_params ks vs = (if ks \<noteq> [] \<and> length ks = length vs then zip ks vs else [])"
  by (simp add: build_params_def add_params_zip)

lemma workers_CreateHandle: "CreateHandle n v s = Inr (h, s1) \<Longrightarrow> workers s1 = workers s"
  by (auto simp: CreateHandle_def Let_def split: if_splits)

lemma workers_fetch_flag: "workers (snd (fetch_flag h s)) = workers s"
  by (simp add: fetch_flag_def Let_def split: option.splits)

lemma CreateHandle_Inl: "CreateHandle n v s = Inl err \<longleftrightarrow> lastHandle s = INT_MAX"
  by (cases err) (simp add: CreateHandle_def Let_def)

text \<open>
  C9. A call of \<open>LoadURL\<close> or \<open>LoadJSON\<close> does not look at the two lists: it returns a
  handle unless the handle counter overflows. The thread it starts then issues the GET for
  the given URL, with the pairs of keys and values when the lists are non-empty and of equal
  length, and with no parameter otherwise; in particular with none when the lengths differ.
\<close>

theorem mismatched_params_ignored:
  "(case step e (E_CreateRequest name vmh url t ks vs isJSON) s of
      Inl err \<Rightarrow> lastHandle s = INT_MAX
    | Inr s1 \<Rightarrow>
       (case step e (E_Spawn (length (workers s))) s1 of
          Inl err \<Rightarrow> False
        | Inr s2 \<Rightarrow>
           phase_of s1 (length (workers s)) = Some Starting \<and>
           phase_of s2 (length (workers s)) = Some Fetching \<and>
           w_url (workers s2 ! length (workers s)) = url \<and>
           w_params (workers s2 ! length (workers s)) =
             (if ks \<noteq> [] \<and> length ks = length vs then zip ks vs else []) \<and>
           (length ks \<noteq> length vs \<longrightarrow> w_params (workers s2 ! length (workers s)) = [])))"
proof (cases "CreateHandle name vmh s")
  case (Inl err)
  then show ?thesis using CreateHandle_Inl [of name vmh s err] by simp
next
  case (Inr p)
  obtain h s0 where p: "p = (h, s0)" by (cases p)
  have w0: "workers s0 = workers s" using Inr p workers_CreateHandle by blast
  define s1 where "s1 = s0\<lparr>workers := workers s0 @
                 [\<lparr>w_handle = h, w_url = url, w_timeout = t,
                   w_paramKeys = ks, w_paramValues = vs,
                   w_isJSON = isJSON, w_flag = None, w_params = [],
                   w_phase = Starting\<rparr>]\<rparr>"
  have st: "step e (E_CreateRequest name vmh url t ks vs isJSON) s = Inr s1"
    using Inr p by (simp add: s1_def)
  have ph: "phase_of s1 (length (workers s)) = Some Starting"
    by (simp add: phase_of_def s1_def w0)
  have len: "length (workers (snd (fetch_flag h s1))) = Suc (length (workers s))"
    by (simp add: workers_fetch_flag s1_def w0)
  have "case step e (E_Spawn (length (workers s))) s1 of
          Inl err \<Rightarrow> False
        | Inr s2 \<Rightarrow>
           phase_of s1 (length (workers s)) = Some Starting \<and>
           phase_of s2 (length (workers s)) = Some Fetching \<and>
           w_url (workers s2 ! length (workers s)) = url \<and>
           w_params (workers s2 ! length (workers s)) =
             (if ks \<noteq> [] \<and> length ks = length vs then zip ks vs else []) \<and>
           (length ks \<noteq> length vs \<longrightarrow> w_params (workers s2 ! length (workers s)) = [])"
    using ph len
    by (simp add: spawn_def Let_def split_beta phase_of_def build_params_eq workers_fetch_flag s1_def w0)
  then show ?thesis unfolding st by simp
qed

theorem mismatched_params_ignored_witness:
  "(case step sample_env (LoadURL ''A'' 7 ''u'' 5000 [''k1'', ''k2''] [''v1'']) init of
      Inl err \<Rightarrow> False
    | Inr s1 \<Rightarrow>
       (case step sample_env (E_Spawn 0) s1 of
          Inl err \<Rightarrow> False
        | Inr s2 \<Rightarrow> length [''k1'', ''k2''] \<noteq> length [''v1''] \<and>
            phase_of s2 0 = Some Fetching \<and> w_params (workers s2 ! 0) = []))"
  using mismatched_params_ignored [where e = sample_env and name = "''A''" and vmh = 7
      and url = "''u''" and t = 5000 and ks = "[''k1'', ''k2'']" and vs = "[''v1'']"
      and isJSON = False and s = init]
  by (simp add: exec_defs)


section \<open>The accessors return the value or the default\<close>

lemma array_token_index:
  "array_token t = (case segment_index t of None \<Rightarrow> (if t = [] then Inl out_of_range
      else if t \<noteq> ''-'' \<and> list_all is_digit t \<and> (length t > 1 \<longrightarrow> hd t \<noteq> CHR ''0'') then Inl out_of_range else Inr None) | Some i \<Rightarrow> Inr (Some i))"
  apply (cases t)
   apply (simp add: array_token_def array_index_def segment_index_def)
  apply (auto simp: array_token_def array_index_def segment_index_def is_digit_def split: if_splits)
  done

lemma array_token_Some: "array_token t = Inr (Some i) \<longleftrightarrow> segment_index t = Some i"
  by (auto simp: array_token_index split: option.splits if_splits)

lemma array_token_index': "array_token t = Inr (Some i) \<Longrightarrow> array_index t = Inr i \<and> t \<noteq> ''-''"
  by (auto simp: array_token_def split: if_splits sum.splits)

lemma contains_resolve:
  "ptr_contains ptr doc = Inr True \<longleftrightarrow> (\<exists>v. resolve ptr doc = Some v)"
proof (induction ptr arbitrary: doc)
  case Nil
  then show ?case by simp
next
  case (Cons t ts)
  show ?case
  proof (cases doc)
    case (JObject ms)
    then show ?thesis using Cons.IH by (simp split: option.splits)
  next
    case (JArray xs)
    show ?thesis
    proof (cases "segment_index t")
      case None
      then have "\<And>i. array_token t \<noteq> Inr (Some i)" by (simp add: array_token_Some)
      then show ?thesis using JArray None
        by (auto split: sum.splits option.splits)
    next
      case (Some i)
      then have "array_token t = Inr (Some i)" by (simp add: array_token_Some)
      then show ?thesis using JArray Some Cons.IH by (simp add: not_le)
    qed
  qed simp_all
qed

lemma get_resolve:
  "resolve ptr doc = Some v \<Longrightarrow> ptr_get ptr doc = Inr v"
proof (induction ptr arbitrary: doc)
  case Nil
  then show ?case by simp
next
  case (Cons t ts)
  show ?case
  proof (cases doc)
    case (JObject ms)
    then show ?thesis using Cons by (simp split: option.splits)
  next
    case (JArray xs)
    with Cons.prems obtain i where i: "segment_index t = Some i" "i < length xs"
      "resolve ts (xs ! i) = Some v"
      by (auto split: option.splits if_splits)
    then have "array_token t = Inr (Some i)" by (simp add: array_token_Some)
    then have "array_index t = Inr i" "t \<noteq> ''-''" using array_token_index' by blast+
    then show ?thesis using JArray i Cons.IH by simp
  qed (use Cons.prems in simp_all)
qed

lemma resolve_JNull: "resolve ptr JNull = Some v \<Longrightarrow> v = JNull"
  by (cases ptr) simp_all

lemma GetJSONValue_spec:
  assumes "\<exists>ex. get JNull = Inl ex"
  shows "GetJSONValue get s h path d = spec_GetField get s h path d"
proof (cases "find_req (requests s) h")
  case None
  then show ?thesis by (simp add: GetJSONValue_def spec_GetField_def)
next
  case (Some req)
  show ?thesis
  proof (cases "json_pointer path")
    case (Inl ex)
    then show ?thesis using Some by (simp add: GetJSONValue_def spec_GetField_def path_resolves_def)
  next
    case (Inr ptr)
    show ?thesis
    proof (cases "resolve ptr (json req)")
      case None
      then have "ptr_contains ptr (json req) \<noteq> Inr True" by (simp add: contains_resolve)
      then show ?thesis using Some Inr None
        by (auto simp: GetJSONValue_def spec_GetField_def path_resolves_def split: sum.splits bool.splits)
    next
      case (Some v)
      then have c: "ptr_contains ptr (json req) = Inr True" by (auto simp: contains_resolve)
      have g: "ptr_get ptr (json req) = Inr v" using Some by (rule get_resolve)
      have n: "json req = JNull \<Longrightarrow> v = JNull" using Some resolve_JNull by auto
      show ?thesis using \<open>find_req (requests s) h = Some req\<close> Inr Some c g n assms
        by (auto simp: GetJSONValue_def spec_GetField_def path_resolves_def split: sum.splits)
    qed
  qed
qed


lemmas json_defs = json_pointer_def unescape_def array_token_def array_index_def is_digit_def
  decimal_def digit_val_def get_string_def get_int_def get_bool_def get_float_def
  GetJSONValue_def GetJSONString_def GetJSONInt_def GetJSONFloat_def GetJSONBool_def

text \<open>
  C6. Each of the four accessors computes what the specification's sentence says: the default
  when the handle is absent, when no document is stored, when the path does not resolve or
  when the value found does not convert; the converted value otherwise. And when the library
  decodes the body \<open>{"a":{"b":42}}\<close> to the object it denotes, then after a JSON mode
  request has received that body with status 200 and its delivery has run,
  \<open>ValidateJSON\<close> is true, the integer accessor at \<open>/a/b\<close> with default \<open>-1\<close>
  returns 42 and the string accessor at the same path with default \<open>x\<close> returns \<open>x\<close>.
\<close>

theorem GetField_value_or_default:
  "GetJSONString s h path ds = spec_GetField get_string s h path ds \<and>
   GetJSONInt fp s h path di = spec_GetField (get_int fp) s h path di \<and>
   GetJSONFloat fp s h path df = spec_GetField (get_float fp) s h path df \<and>
   GetJSONBool s h path db = spec_GetField get_bool s h path db \<and>
   (JSON_parse e sample_body = Inr sample_doc \<longrightarrow>
      (case run e [LoadJSON name vmh url t ks vs, E_Spawn 0, E_Complete 0 ok_response,
                   E_Check 0, E_Deliver 0] init of
         Inl err \<Rightarrow> False
       | Inr s1 \<Rightarrow>
           ValidateJSON s1 1 \<and>
           GetJSONInt fp s1 1 ''/a/b'' (- 1) = 42 \<and>
           GetJSONString s1 1 ''/a/b'' ''x'' = ''x''))"
proof -
  have a: "GetJSONString s h path ds = spec_GetField get_string s h path ds"
    unfolding GetJSONString_def by (rule GetJSONValue_spec) (simp add: get_string_def)
  have b: "GetJSONInt fp s h path di = spec_GetField (get_int fp) s h path di"
    unfolding GetJSONInt_def by (rule GetJSONValue_spec) (simp add: get_int_def)
  have c: "GetJSONFloat fp s h path df = spec_GetField (get_float fp) s h path df"
    unfolding GetJSONFloat_def by (rule GetJSONValue_spec) (simp add: get_float_def)
  have d: "GetJSONBool s h path db = spec_GetField get_bool s h path db"
    unfolding GetJSONBool_def by (rule GetJSONValue_spec) (simp add: get_bool_def)
  have ex: "JSON_parse e sample_body = Inr sample_doc \<longrightarrow>
      (case run e [LoadJSON name vmh url t ks vs, E_Spawn 0, E_Complete 0 ok_response,
                   E_Check 0, E_Deliver 0] init of
         Inl err \<Rightarrow> False
       | Inr s1 \<Rightarrow>
           ValidateJSON s1 1 \<and>
           GetJSONInt fp s1 1 ''/a/b'' (- 1) = 42 \<and>
           GetJSONString s1 1 ''/a/b'' ''x'' = ''x'')"
    by (simp add: init_def LoadJSON_def CreateHandle_def INT_MAX_def emplace_def
        find_req_def phase_of_def spawn_def fetch_flag_def set_phase_def
        canceledFlag_load_def load_def deliver_def CallPapyrus_def parse_into_def
        ValidateJSON_def ok_response_def sample_doc_def Let_def json_defs)
  from a b c d ex show ?thesis by blast
qed

theorem GetField_value_or_default_witness:
  "JSON_parse sample_env sample_body = Inr sample_doc \<and>
   (case run sample_env [LoadJSON ''A'' 7 ''u'' 5000 [] [], E_Spawn 0,
                         E_Complete 0 ok_response, E_Check 0, E_Deliver 0] init of
      Inl err \<Rightarrow> False
    | Inr s1 \<Rightarrow>
        ValidateJSON s1 1 \<and>
        GetJSONInt sample_fp s1 1 ''/a/b'' (- 1) = 42 \<and>
        GetJSONString s1 1 ''/a/b'' ''x'' = ''x'')"
proof -
  have h: "JSON_parse sample_env sample_body = Inr sample_doc"
    by (simp add: sample_env_def)
  have "case run sample_env [LoadJSON ''A'' 7 ''u'' 5000 [] [], E_Spawn 0,
                         E_Complete 0 ok_response, E_Check 0, E_Deliver 0] init of
      Inl err \<Rightarrow> False
    | Inr s1 \<Rightarrow>
        ValidateJSON s1 1 \<and>
        GetJSONInt sample_fp s1 1 ''/a/b'' (- 1) = 42 \<and>
        GetJSONString s1 1 ''/a/b'' ''x'' = ''x''"
    using GetField_value_or_default [where e = sample_env and fp = sample_fp,
        THEN conjunct2, THEN conjunct2, THEN conjunct2, THEN conjunct2, THEN mp, OF h] .
  with h show ?thesis ..
qed

section \<open>The invariants hold along every run\<close>

lemma handle_inj:
  "a < 2 ^ 32 \<Longrightarrow> b < 2 ^ 32 \<Longrightarrow> (of_nat a :: int32) = of_nat b \<Longrightarrow> a = b"
  by (simp add: word_of_nat_eq_iff take_bit_nat_eq_self)

lemma handle_sint: "n < 2 ^ 31 \<Longrightarrow> sint (of_nat n :: int32) = int n"
  by (simp add: signed_of_nat signed_take_bit_int_eq_self)

lemma not_INT_MAX:
  assumes "n < 2 ^ 31" "(of_nat n :: int32) \<noteq> INT_MAX"
  shows "Suc n < 2 ^ 31"
proof -
  have "n \<noteq> 2147483647" using assms(2) by (auto simp: INT_MAX_def)
  with assms(1) show ?thesis by simp
qed

lemma inv_init: "inv init"
  by (simp add: inv_def init_def handles_ok_def registry_ok_def flags_ok_def docs_ok_def
      calls_ok_def find_req_def)


lemma find_emplace:
  "find_req (emplace h r rs) k = (if k = h \<and> find_req rs h = None then Some r else find_req rs k)"
  by (auto simp: emplace_def find_req_def map_add_def split: option.splits)

lemma find_append_new:
  "find_req rs h = None \<Longrightarrow> find_req (rs @ [(h, r)]) k = (if k = h then Some r else find_req rs k)"
  by (auto simp: find_req_def map_add_def split: option.splits)

lemma length_fold_store:
  "length (fold (\<lambda>kv fl. store_true (canceled (snd kv)) fl) rs fl) = length fl"
  by (induction rs arbitrary: fl) (simp_all add: store_true_def)

lemma nth_fold_store:
  "a < length fl \<Longrightarrow>
   fold (\<lambda>kv fl. store_true (canceled (snd kv)) fl) rs fl ! a
     = (fl ! a \<or> a \<in> (\<lambda>kv. canceled (snd kv)) ` set rs)"
proof (induction rs arbitrary: fl)
  case Nil
  then show ?case by simp
next
  case (Cons kv rs)
  have len: "a < length (store_true (canceled (snd kv)) fl)"
    using Cons.prems by (simp add: store_true_def)
  have hd: "store_true (canceled (snd kv)) fl ! a = (fl ! a \<or> a = canceled (snd kv))"
    using Cons.prems
    by (cases "canceled (snd kv) < length fl") (auto simp: store_true_def nth_list_update)
  show ?case using Cons.IH [OF len] hd by auto
qed

lemma find_in_set: "find_req rs h = Some r \<Longrightarrow> (h, r) \<in> set rs"
  by (simp add: find_req_def map_of_SomeD)


lemma step_CreateRequest:
  assumes "lastHandle s \<noteq> INT_MAX"
  shows "step e (E_CreateRequest name vmh url t ks vs isJSON) s =
     Inr (s\<lparr>lastHandle := lastHandle s + 1, flags := flags s @ [False],
            requests := emplace (lastHandle s + 1)
               \<lparr>scriptName = name, vmhandle = vmh, canceled = length (flags s),
                json = JNull, jsonValidated = False\<rparr> (requests s),
            workers := workers s @
                 [\<lparr>w_handle = lastHandle s + 1, w_url = url, w_timeout = t,
                   w_paramKeys = ks, w_paramValues = vs,
                   w_isJSON = isJSON, w_flag = None, w_params = [],
                   w_phase = Starting\<rparr>]\<rparr>)"
  using assms by (simp add: CreateHandle_def Let_def)

lemma fresh_handle:
  assumes "handles_ok s" "registry_ok s" "lastHandle s \<noteq> INT_MAX"
  shows "find_req (requests s) (lastHandle s + 1) = None"
    and "Suc (length (workers s)) < 2 ^ 31"
    and "lastHandle s + 1 = of_nat (Suc (length (workers s)))"
    and "\<And>i. i < length (workers s) \<Longrightarrow> w_handle (workers s ! i) \<noteq> lastHandle s + 1"
proof -
  let ?n = "length (workers s)"
  from assms(1) have n: "?n < 2 ^ 31" and l: "lastHandle s = of_nat ?n"
    and hs: "\<And>i. i < ?n \<Longrightarrow> w_handle (workers s ! i) = of_nat (Suc i)"
    by (auto simp: handles_ok_def)
  show sn: "Suc ?n < 2 ^ 31" using n assms(3) l not_INT_MAX by metis
  show eq: "lastHandle s + 1 = of_nat (Suc ?n)" by (simp add: l)
  have neq: "(of_nat (Suc i) :: int32) \<noteq> of_nat (Suc ?n)" if "i < ?n" for i
  proof
    assume "(of_nat (Suc i) :: int32) = of_nat (Suc ?n)"
    then have "Suc i = Suc ?n" using that sn by (intro handle_inj) simp_all
    with that show False by simp
  qed
  show "w_handle (workers s ! i) \<noteq> lastHandle s + 1" if "i < ?n" for i
    using hs [OF that] neq [OF that] eq by simp
  show "find_req (requests s) (lastHandle s + 1) = None"
  proof (cases "find_req (requests s) (lastHandle s + 1)")
    case (Some r)
    with assms(2) obtain i where "i < ?n" "lastHandle s + 1 = of_nat (Suc i)"
      unfolding registry_ok_def by blast
    with neq eq show ?thesis by metis
  qed simp
qed

lemma distinct_handles:
  assumes "handles_ok s" "i < length (workers s)" "j < length (workers s)"
    "w_handle (workers s ! i) = w_handle (workers s ! j)"
  shows "i = j"
proof -
  from assms have "(of_nat (Suc i) :: int32) = of_nat (Suc j)" by (simp add: handles_ok_def)
  moreover have "Suc i < 2 ^ 32" "Suc j < 2 ^ 32" using assms(1-3) by (auto simp: handles_ok_def)
  ultimately have "Suc i = Suc j" by (rule handle_inj [rotated 2])
  then show ?thesis by simp
qed

lemma linked_mono:
  assumes "flag_linked s w"
    and "length (flags s) \<le> length (flags s')"
    and "\<And>a. a < length (flags s) \<Longrightarrow> flags s ! a \<Longrightarrow> flags s' ! a"
    and "case find_req (requests s') (w_handle w) of
           None \<Rightarrow> (case find_req (requests s) (w_handle w) of
                      None \<Rightarrow> True | Some r \<Rightarrow> flags s' ! canceled r)
         | Some r' \<Rightarrow> (case find_req (requests s) (w_handle w) of
                      None \<Rightarrow> False | Some r \<Rightarrow> canceled r' = canceled r)"
    and "w_flag w' = w_flag w" "w_handle w' = w_handle w"
  shows "flag_linked s' w'"
  using assms by (auto simp: flag_linked_def split: option.splits)

lemma inv_CreateRequest:
  assumes "inv s" "step e (E_CreateRequest name vmh url t ks vs isJSON) s = Inr s'"
  shows "inv s'"
proof -
  have nm: "lastHandle s \<noteq> INT_MAX" using assms(2) by (auto simp: CreateHandle_def split: if_splits)
  from assms(1) have H: "handles_ok s" and R: "registry_ok s" and F: "flags_ok s"
    and D: "docs_ok s" and C: "calls_ok s" by (simp_all add: inv_def)
  note fr = fresh_handle [OF H R nm]
  let ?n = "length (workers s)"
  let ?h = "lastHandle s + 1"
  have s': "s' = s\<lparr>lastHandle := ?h, flags := flags s @ [False],
            requests := emplace ?h
               \<lparr>scriptName = name, vmhandle = vmh, canceled = length (flags s),
                json = JNull, jsonValidated = False\<rparr> (requests s),
            workers := workers s @
                 [\<lparr>w_handle = ?h, w_url = url, w_timeout = t,
                   w_paramKeys = ks, w_paramValues = vs,
                   w_isJSON = isJSON, w_flag = None, w_params = [],
                   w_phase = Starting\<rparr>]\<rparr>"
    using assms(2) step_CreateRequest [OF nm] by simp
  have fnd: "find_req (requests s') k = (if k = ?h then Some \<lparr>scriptName = name, vmhandle = vmh, canceled = length (flags s),
                json = JNull, jsonValidated = False\<rparr> else find_req (requests s) k)" for k
    by (simp add: s' find_emplace fr(1))
  have len: "length (workers s') = Suc ?n" by (simp add: s')
  have fl: "flags s' = flags s @ [False]" by (simp add: s')
  have old: "workers s' ! i = workers s ! i" if "i < ?n" for i
    using that by (simp add: s' nth_append)
  have new: "workers s' ! ?n = \<lparr>w_handle = ?h, w_url = url, w_timeout = t,
                   w_paramKeys = ks, w_paramValues = vs,
                   w_isJSON = isJSON, w_flag = None, w_params = [],
                   w_phase = Starting\<rparr>"
    by (simp add: s')
  have H': "handles_ok s'"
    unfolding handles_ok_def len
  proof (intro conjI allI impI)
    show "Suc ?n < 2 ^ 31" by (rule fr(2))
    show "lastHandle s' = of_nat (Suc ?n)" using fr(3) by (simp add: s')
    fix i assume "i < Suc ?n"
    then consider "i < ?n" | "i = ?n" by linarith
    then show "w_handle (workers s' ! i) = of_nat (Suc i)"
    proof cases
      case 1
      then show ?thesis using H old by (simp add: handles_ok_def)
    next
      case 2
      then show ?thesis using new fr(3) by simp
    qed
  qed
  have R': "registry_ok s'"
    unfolding registry_ok_def len
  proof (intro allI impI)
    fix h r assume a: "find_req (requests s') h = Some r"
    show "(\<exists>i<Suc ?n. h = of_nat (Suc i)) \<and> canceled r < length (flags s')"
    proof (cases "h = ?h")
      case True
      then have "canceled r = length (flags s)" using a fnd by auto
      then show ?thesis using True fr(3) by (auto simp: s')
    next
      case False
      then have "find_req (requests s) h = Some r" using a fnd by simp
      with R have "(\<exists>i<?n. h = of_nat (Suc i)) \<and> canceled r < length (flags s)"
        unfolding registry_ok_def by blast
      then show ?thesis using less_Suc_eq by (auto simp: s')
    qed
  qed
  have F': "flags_ok s'"
    unfolding flags_ok_def len
  proof (intro allI impI)
    fix i assume "i < Suc ?n"
    then consider "i < ?n" | "i = ?n" by linarith
    then show "if w_phase (workers s' ! i) = Starting then w_flag (workers s' ! i) = None
        else flag_linked s' (workers s' ! i)"
    proof cases
      case 1
      have ne: "w_handle (workers s ! i) \<noteq> ?h" using fr(4) 1 by simp
      show ?thesis
      proof (cases "w_phase (workers s ! i) = Starting")
        case True
        then show ?thesis using F 1 old by (simp add: flags_ok_def)
      next
        case False
        then have l: "flag_linked s (workers s ! i)" using F 1 by (auto simp: flags_ok_def)
        have "flag_linked s' (workers s ! i)"
          using l by (rule linked_mono) (auto simp: fl nth_append fnd ne split: option.splits)
        then show ?thesis using False old 1 by simp
      qed
    next
      case 2
      then show ?thesis using new by simp
    qed
  qed
  have D': "docs_ok s'"
    unfolding docs_ok_def len
  proof (intro allI impI)
    fix i assume i: "i < Suc ?n"
      and p: "w_phase (workers s' ! i) \<noteq> Finished \<or> \<not> w_isJSON (workers s' ! i)"
    from i consider "i < ?n" | "i = ?n" by linarith
    then show "undelivered s' (w_handle (workers s' ! i))"
    proof cases
      case 1
      have ne: "w_handle (workers s ! i) \<noteq> ?h" using fr(4) 1 by simp
      have "undelivered s (w_handle (workers s ! i))" using D 1 p old by (simp add: docs_ok_def)
      then show ?thesis using ne old 1 by (simp add: undelivered_def fnd)
    next
      case 2
      then show ?thesis using new by (simp add: undelivered_def fnd)
    qed
  qed
  have C': "calls_ok s'"
    unfolding calls_ok_def len
  proof (intro conjI ballI)
    fix c assume "c \<in> set (invoked s')"
    then have "c \<in> set (invoked s)" by (simp add: s')
    with C obtain i where "i < ?n" "w_phase (workers s ! i) = Finished"
      "about (w_handle (workers s ! i)) c" unfolding calls_ok_def by blast
    then show "\<exists>i<Suc ?n. w_phase (workers s' ! i) = Finished \<and> about (w_handle (workers s' ! i)) c"
      using old less_Suc_eq by auto
  next
    show "set (dispatched s') \<subseteq> set (invoked s')" using C by (simp add: s' calls_ok_def)
  qed
  from H' R' F' D' C' show ?thesis by (simp add: inv_def)
qed

lemma spawn_effect:
  fixes s i
  defines "w \<equiv> workers s ! i"
  defines "a \<equiv> (case find_req (requests s) (w_handle w) of
                   Some r \<Rightarrow> canceled r | None \<Rightarrow> length (flags s))"
  shows "workers (spawn i s) = (workers s)[i := w\<lparr>w_flag := Some a,
             w_params := build_params (w_paramKeys w) (w_paramValues w),
             w_phase := Fetching\<rparr>]"
    and "flags (spawn i s) =
           (case find_req (requests s) (w_handle w) of
              Some r \<Rightarrow> flags s | None \<Rightarrow> flags s @ [False])"
    and "find_req (requests (spawn i s)) k =
           (if k = w_handle w \<and> find_req (requests s) k = None
            then Some \<lparr>scriptName = [], vmhandle = 0, canceled = length (flags s),
                       json = JNull, jsonValidated = False\<rparr>
            else find_req (requests s) k)"
    and "lastHandle (spawn i s) = lastHandle s"
    and "invoked (spawn i s) = invoked s"
    and "dispatched (spawn i s) = dispatched s"
  unfolding w_def a_def
  by (auto simp: spawn_def fetch_flag_def Let_def find_append_new split: option.splits)

lemma inv_spawn:
  assumes "inv s" "phase_of s i = Some Starting"
  shows "inv (spawn i s)"
proof -
  from assms(1) have H: "handles_ok s" and R: "registry_ok s" and F: "flags_ok s"
    and D: "docs_ok s" and C: "calls_ok s" by (simp_all add: inv_def)
  from assms(2) have i: "i < length (workers s)" and ph: "w_phase (workers s ! i) = Starting"
    by (auto simp: phase_of_def split: if_splits)
  let ?s = "spawn i s"
  let ?w = "workers s ! i"
  let ?h = "w_handle ?w"
  let ?a = "case find_req (requests s) ?h of Some r \<Rightarrow> canceled r | None \<Rightarrow> length (flags s)"
  note ef = spawn_effect [of i s]
  have len: "length (workers ?s) = length (workers s)" by (simp add: ef(1))
  have hd: "w_handle (workers ?s ! j) = w_handle (workers s ! j)" if "j < length (workers s)" for j
    using that by (cases "j = i") (simp_all add: ef(1))
  have other: "workers ?s ! j = workers s ! j" if "j \<noteq> i" for j
    using that by (simp add: ef(1))
  have self: "w_phase (workers ?s ! i) = Fetching" "w_flag (workers ?s ! i) = Some ?a"
    "w_isJSON (workers ?s ! i) = w_isJSON ?w"
    using i by (simp_all add: ef(1))
  have H': "handles_ok ?s"
    using H hd by (simp add: handles_ok_def len ef(4))
  have R': "registry_ok ?s"
    unfolding registry_ok_def len
  proof (intro allI impI)
    fix h r assume a: "find_req (requests ?s) h = Some r"
    show "(\<exists>j<length (workers s). h = of_nat (Suc j)) \<and> canceled r < length (flags ?s)"
    proof (cases "h = ?h \<and> find_req (requests s) h = None")
      case True
      then have "canceled r = length (flags s)" using a ef(3) [of h] by auto
      moreover have "h = of_nat (Suc i)" using True H i by (simp add: handles_ok_def)
      ultimately show ?thesis using True i by (auto simp: ef(2))
    next
      case False
      have "find_req (requests ?s) h = find_req (requests s) h"
        unfolding ef(3) [of h] using False by (simp only: if_False)
      then have "find_req (requests s) h = Some r" using a by simp
      with R have "(\<exists>j<length (workers s). h = of_nat (Suc j)) \<and> canceled r < length (flags s)"
        unfolding registry_ok_def by blast
      then show ?thesis by (auto simp: ef(2) split: option.splits)
    qed
  qed
  have F': "flags_ok ?s"
    unfolding flags_ok_def len
  proof (intro allI impI)
    fix j assume j: "j < length (workers s)"
    show "if w_phase (workers ?s ! j) = Starting then w_flag (workers ?s ! j) = None
        else flag_linked ?s (workers ?s ! j)"
    proof (cases "j = i")
      case True
      have "flag_linked ?s (workers ?s ! i)"
      proof (cases "find_req (requests s) ?h")
        case None
        then show ?thesis using i
          by (simp add: flag_linked_def self ef(2) ef(3) hd)
      next
        case (Some r)
        moreover from R Some have "canceled r < length (flags s)"
          unfolding registry_ok_def by blast
        ultimately show ?thesis using i
          by (simp add: flag_linked_def self ef(2) ef(3) hd)
      qed
      then show ?thesis using True self by simp
    next
      case False
      have ne: "w_handle (workers s ! j) \<noteq> ?h"
        using distinct_handles [OF H j i] False by blast
      show ?thesis
      proof (cases "w_phase (workers s ! j) = Starting")
        case True
        then show ?thesis using F j False other by (simp add: flags_ok_def)
      next
        case st: False
        then have l: "flag_linked s (workers s ! j)" using F j by (auto simp: flags_ok_def)
        have "flag_linked ?s (workers s ! j)"
          using l by (rule linked_mono)
            (auto simp: ef(2) ef(3) nth_append ne split: option.splits)
        then show ?thesis using st other False by simp
      qed
    qed
  qed
  have D': "docs_ok ?s"
    unfolding docs_ok_def len
  proof (intro allI impI)
    fix j assume j: "j < length (workers s)"
      and p: "w_phase (workers ?s ! j) \<noteq> Finished \<or> \<not> w_isJSON (workers ?s ! j)"
    have u: "undelivered s (w_handle (workers s ! j))"
    proof (cases "j = i")
      case True
      then show ?thesis using D i ph by (simp add: docs_ok_def)
    next
      case False
      then show ?thesis using D j p other by (simp add: docs_ok_def)
    qed
    then show "undelivered ?s (w_handle (workers ?s ! j))"
      using j by (auto simp: undelivered_def hd ef(3) split: option.splits)
  qed
  have C': "calls_ok ?s"
    unfolding calls_ok_def len
  proof (intro conjI ballI)
    fix c assume "c \<in> set (invoked ?s)"
    then have "c \<in> set (invoked s)" by (simp add: ef(5))
    with C obtain j where j: "j < length (workers s)" "w_phase (workers s ! j) = Finished"
      "about (w_handle (workers s ! j)) c" unfolding calls_ok_def by blast
    then have "j \<noteq> i" using ph by auto
    then show "\<exists>j<length (workers s). w_phase (workers ?s ! j) = Finished \<and> about (w_handle (workers ?s ! j)) c"
      using j other by auto
  next
    show "set (dispatched ?s) \<subseteq> set (invoked ?s)" using C by (simp add: ef calls_ok_def)
  qed
  from H' R' F' D' C' show ?thesis by (simp add: inv_def)
qed

lemma inv_set_phase:
  assumes "inv s" "i < length (workers s)"
    and "w_phase (workers s ! i) \<noteq> Starting" "w_phase (workers s ! i) \<noteq> Finished"
    and "p \<noteq> Starting"
  shows "inv (set_phase i p s)"
proof -
  from assms(1) have H: "handles_ok s" and R: "registry_ok s" and F: "flags_ok s"
    and D: "docs_ok s" and C: "calls_ok s" by (simp_all add: inv_def)
  let ?s = "set_phase i p s"
  have W: "workers ?s = (workers s)[i := (workers s ! i)\<lparr>w_phase := p\<rparr>]"
    and rest: "requests ?s = requests s" "flags ?s = flags s" "lastHandle ?s = lastHandle s"
      "invoked ?s = invoked s" "dispatched ?s = dispatched s"
    by (simp_all add: set_phase_def)
  have len: "length (workers ?s) = length (workers s)" by (simp add: W)
  have other: "workers ?s ! j = workers s ! j" if "j \<noteq> i" for j
    using that by (simp add: W)
  have self: "workers ?s ! i = (workers s ! i)\<lparr>w_phase := p\<rparr>"
    using assms(2) by (simp add: W)
  have H': "handles_ok ?s"
    unfolding handles_ok_def len rest
  proof (intro conjI allI impI)
    fix j assume "j < length (workers s)"
    then show "w_handle (workers ?s ! j) = of_nat (Suc j)"
      using H other self by (cases "j = i") (simp_all add: handles_ok_def)
  qed (use H in \<open>simp_all add: handles_ok_def\<close>)
  have R': "registry_ok ?s"
    using R by (simp add: registry_ok_def len rest)
  have F': "flags_ok ?s"
    unfolding flags_ok_def len
  proof (intro allI impI)
    fix j assume j: "j < length (workers s)"
    show "if w_phase (workers ?s ! j) = Starting then w_flag (workers ?s ! j) = None
        else flag_linked ?s (workers ?s ! j)"
    proof (cases "j = i")
      case True
      have "flag_linked s (workers s ! i)" using F assms(2,3) by (auto simp: flags_ok_def)
      then have "flag_linked ?s (workers ?s ! i)"
        by (simp add: flag_linked_def self rest split: option.splits)
      then show ?thesis using True self assms(5) by simp
    next
      case False
      have "flag_linked ?s w = flag_linked s w" for w
        by (simp add: flag_linked_def rest split: option.splits)
      then show ?thesis using F j other [OF False] by (simp add: flags_ok_def)
    qed
  qed
  have D': "docs_ok ?s"
    unfolding docs_ok_def len
  proof (intro allI impI)
    fix j assume j: "j < length (workers s)"
      and p: "w_phase (workers ?s ! j) \<noteq> Finished \<or> \<not> w_isJSON (workers ?s ! j)"
    have "undelivered s (w_handle (workers s ! j))"
    proof (cases "j = i")
      case True
      then show ?thesis using D assms(2,4) by (simp add: docs_ok_def)
    next
      case False
      then show ?thesis using D j p other by (simp add: docs_ok_def)
    qed
    moreover have "w_handle (workers ?s ! j) = w_handle (workers s ! j)"
      using other self by (cases "j = i") simp_all
    ultimately show "undelivered ?s (w_handle (workers ?s ! j))"
      by (simp add: undelivered_def rest)
  qed
  have C': "calls_ok ?s"
    unfolding calls_ok_def len rest
  proof (intro conjI ballI)
    fix c assume "c \<in> set (invoked s)"
    with C obtain j where j: "j < length (workers s)" "w_phase (workers s ! j) = Finished"
      "about (w_handle (workers s ! j)) c" unfolding calls_ok_def by blast
    then have "j \<noteq> i" using assms(4) by auto
    then show "\<exists>j<length (workers s). w_phase (workers ?s ! j) = Finished \<and> about (w_handle (workers ?s ! j)) c"
      using j other by auto
  next
    show "set (dispatched s) \<subseteq> set (invoked s)" using C by (simp add: calls_ok_def)
  qed
  from H' R' F' D' C' show ?thesis by (simp add: inv_def)
qed


lemma deliver_absent: "find_req (requests s) h = None \<Longrightarrow> deliver e h j r s = s"
  by (simp add: deliver_def)

lemma deliver_fail:
  "find_req (requests s) h = Some req \<Longrightarrow> status_code r \<noteq> 200 \<Longrightarrow>
   deliver e h j r s =
     CallPapyrus e (vmhandle req) (scriptName req) ''OnRequestFail''
       [PInt h, PInt (status_code r)] s"
  by (simp add: deliver_def)

lemma deliver_success:
  "find_req (requests s) h = Some req \<Longrightarrow> status_code r = 200 \<Longrightarrow>
   deliver e h j r s =
     CallPapyrus e (vmhandle req) (scriptName req) ''OnRequestSuccess''
       [PInt h, PString (resp_text r)]
       (if j then s\<lparr>requests := assign h (parse_into e (resp_text r) req) (requests s)\<rparr>
        else s)"
  by (simp add: deliver_def)

lemma CallPapyrus_frame:
  "requests (CallPapyrus e a n m args s) = requests s"
  "flags (CallPapyrus e a n m args s) = flags s"
  "workers (CallPapyrus e a n m args s) = workers s"
  "lastHandle (CallPapyrus e a n m args s) = lastHandle s"
  "invoked (CallPapyrus e a n m args s) =
     invoked s @ [\<lparr>c_object = a, c_script = n, c_method = m, c_args = args\<rparr>]"
  "dispatched (CallPapyrus e a n m args s) =
     (if FindBoundObject e a n
      then dispatched s @ [\<lparr>c_object = a, c_script = n, c_method = m, c_args = args\<rparr>]
      else dispatched s)"
  by (simp_all add: CallPapyrus_def Let_def)

lemma deliver_frame:
  "flags (deliver e h j r s) = flags s"
  "workers (deliver e h j r s) = workers s"
  "lastHandle (deliver e h j r s) = lastHandle s"
  by (simp_all add: deliver_def CallPapyrus_frame Let_def split: option.splits)

lemma canceled_parse_into: "canceled (parse_into e t req) = canceled req"
  by (simp add: parse_into_def Let_def split: sum.splits)

lemma find_deliver:
  "find_req (requests (deliver e h j r s)) k =
     (if k = h \<and> status_code r = 200 \<and> j
      then map_option (parse_into e (resp_text r)) (find_req (requests s) k)
      else find_req (requests s) k)"
  by (auto simp: deliver_def CallPapyrus_frame find_assign Let_def split: option.splits)

lemma invoked_deliver:
  "invoked (deliver e h j r s) =
     invoked s @ (case find_req (requests s) h of
        None \<Rightarrow> []
      | Some req \<Rightarrow>
          [\<lparr>c_object = vmhandle req, c_script = scriptName req,
            c_method = (if status_code r = 200 then ''OnRequestSuccess'' else ''OnRequestFail''),
            c_args = [PInt h, if status_code r = 200 then PString (resp_text r)
                              else PInt (status_code r)]\<rparr>])"
  by (auto simp: deliver_def CallPapyrus_frame Let_def split: option.splits)

lemma dispatched_deliver:
  "set (dispatched s) \<subseteq> set (invoked s) \<Longrightarrow>
   set (dispatched (deliver e h j r s)) \<subseteq> set (invoked (deliver e h j r s))"
  by (auto simp: deliver_def CallPapyrus_frame Let_def split: option.splits if_splits)

lemma about_new_call: "c \<in> set (invoked (deliver e h j r s)) \<Longrightarrow> c \<in> set (invoked s) \<or> about h c"
  by (auto simp: invoked_deliver about_def split: option.splits)

lemma inv_deliver:
  assumes "inv s" "i < length (workers s)" "w_phase (workers s ! i) = Locking r"
  shows "inv (set_phase i Finished
                (deliver e (w_handle (workers s ! i)) (w_isJSON (workers s ! i)) r s))"
proof -
  from assms(1) have H: "handles_ok s" and R: "registry_ok s" and F: "flags_ok s"
    and D: "docs_ok s" and C: "calls_ok s" by (simp_all add: inv_def)
  let ?h = "w_handle (workers s ! i)"
  let ?j = "w_isJSON (workers s ! i)"
  let ?d = "deliver e ?h ?j r s"
  let ?s = "set_phase i Finished ?d"
  have W: "workers ?s = (workers s)[i := (workers s ! i)\<lparr>w_phase := Finished\<rparr>]"
    and rest: "requests ?s = requests ?d" "flags ?s = flags s" "lastHandle ?s = lastHandle s"
      "invoked ?s = invoked ?d" "dispatched ?s = dispatched ?d"
    by (simp_all add: set_phase_def deliver_frame)
  have len: "length (workers ?s) = length (workers s)" by (simp add: W)
  have other: "workers ?s ! j = workers s ! j" if "j \<noteq> i" for j
    using that by (simp add: W)
  have self: "workers ?s ! i = (workers s ! i)\<lparr>w_phase := Finished\<rparr>"
    using assms(2) by (simp add: W)
  have hd: "w_handle (workers ?s ! j) = w_handle (workers s ! j)" for j
    using other self by (cases "j = i") simp_all
  have fnd: "find_req (requests ?s) k =
     (if k = ?h \<and> status_code r = 200 \<and> ?j
      then map_option (parse_into e (resp_text r)) (find_req (requests s) k)
      else find_req (requests s) k)" for k
    by (simp only: rest find_deliver)
  have H': "handles_ok ?s"
    using H by (simp add: handles_ok_def len rest hd)
  have R': "registry_ok ?s"
    unfolding registry_ok_def len rest(2)
  proof (intro allI impI)
    fix h q assume "find_req (requests ?s) h = Some q"
    then obtain q' where "find_req (requests s) h = Some q'" "canceled q = canceled q'"
      by (auto simp: fnd canceled_parse_into split: if_splits)
    with R show "(\<exists>i<length (workers s). h = of_nat (Suc i)) \<and> canceled q < length (flags s)"
      unfolding registry_ok_def by fastforce
  qed
  have lk: "flag_linked ?s w" if "flag_linked s w" for w
    using that by (rule linked_mono)
      (auto simp: rest find_deliver canceled_parse_into split: option.splits)
  have F': "flags_ok ?s"
    unfolding flags_ok_def len
  proof (intro allI impI)
    fix j assume j: "j < length (workers s)"
    show "if w_phase (workers ?s ! j) = Starting then w_flag (workers ?s ! j) = None
        else flag_linked ?s (workers ?s ! j)"
    proof (cases "j = i")
      case True
      have "flag_linked s (workers s ! i)" using F assms(2,3) by (auto simp: flags_ok_def)
      then have "flag_linked ?s (workers s ! i)" by (rule lk)
      then have "flag_linked ?s (workers ?s ! i)"
        by (simp add: flag_linked_def self split: option.splits)
      then show ?thesis using True self by simp
    next
      case False
      then show ?thesis using F j other [OF False] lk by (auto simp: flags_ok_def)
    qed
  qed
  have D': "docs_ok ?s"
    unfolding docs_ok_def len
  proof (intro allI impI)
    fix j assume j: "j < length (workers s)"
      and p: "w_phase (workers ?s ! j) \<noteq> Finished \<or> \<not> w_isJSON (workers ?s ! j)"
    show "undelivered ?s (w_handle (workers ?s ! j))"
    proof (cases "j = i")
      case True
      then have nj: "\<not> ?j" using p self by simp
      have u: "undelivered s ?h" using D assms(2,3) by (simp add: docs_ok_def)
      have "find_req (requests ?s) ?h = find_req (requests s) ?h"
        unfolding fnd using nj by (simp only: simp_thms if_False)
      then have "undelivered ?s ?h" using u by (simp only: undelivered_def)
      then show ?thesis unfolding True hd .
    next
      case False
      have ne: "w_handle (workers s ! j) \<noteq> ?h"
        using distinct_handles [OF H j assms(2)] False by blast
      have u: "undelivered s (w_handle (workers s ! j))"
        using D j p other [OF False] by (simp add: docs_ok_def)
      have "find_req (requests ?s) (w_handle (workers s ! j))
              = find_req (requests s) (w_handle (workers s ! j))"
        unfolding fnd using ne by (simp only: simp_thms if_False)
      then have "undelivered ?s (w_handle (workers s ! j))" using u by (simp only: undelivered_def)
      then show ?thesis unfolding hd .
    qed
  qed
  have C': "calls_ok ?s"
    unfolding calls_ok_def len rest
  proof (intro conjI ballI)
    fix c assume "c \<in> set (invoked ?d)"
    then consider "c \<in> set (invoked s)" | "about ?h c" using about_new_call by blast
    then show "\<exists>j<length (workers s). w_phase (workers ?s ! j) = Finished \<and> about (w_handle (workers ?s ! j)) c"
    proof cases
      case 1
      with C obtain j where j: "j < length (workers s)" "w_phase (workers s ! j) = Finished"
        "about (w_handle (workers s ! j)) c" unfolding calls_ok_def by blast
      then have "j \<noteq> i" using assms(3) by auto
      then show ?thesis using j other hd by auto
    next
      case 2
      then show ?thesis using assms(2) self hd by (intro exI [of _ i]) simp
    qed
  next
    show "set (dispatched ?d) \<subseteq> set (invoked ?d)"
      using C by (intro dispatched_deliver) (simp add: calls_ok_def)
  qed
  from H' R' F' D' C' show ?thesis by (simp add: inv_def)
qed

lemma Destroy_effect:
  assumes "find_req (requests s) h = Some req" "caller = scriptName req"
  shows "Destroy h caller s = s\<lparr>flags := (flags s)[canceled req := True],
                                requests := erase h (requests s)\<rparr>"
  using assms by (simp add: Destroy_def store_true_def)

lemma Destroy_noop:
  "find_req (requests s) h = None \<or>
   (\<exists>req. find_req (requests s) h = Some req \<and> caller \<noteq> scriptName req) \<Longrightarrow>
   Destroy h caller s = s"
  by (auto simp: Destroy_def)

lemma inv_Destroy:
  assumes "inv s"
  shows "inv (Destroy h caller s)"
proof (cases "\<exists>req. find_req (requests s) h = Some req \<and> caller = scriptName req")
  case False
  then have "Destroy h caller s = s" by (auto simp: Destroy_def split: option.splits)
  then show ?thesis using assms by simp
next
  case True
  then obtain req where req: "find_req (requests s) h = Some req" "caller = scriptName req"
    by blast
  from assms(1) have H: "handles_ok s" and R: "registry_ok s" and F: "flags_ok s"
    and D: "docs_ok s" and C: "calls_ok s" by (simp_all add: inv_def)
  let ?s = "Destroy h caller s"
  have s': "?s = s\<lparr>flags := (flags s)[canceled req := True], requests := erase h (requests s)\<rparr>"
    using req by (rule Destroy_effect)
  have rest: "workers ?s = workers s" "lastHandle ?s = lastHandle s"
    "invoked ?s = invoked s" "dispatched ?s = dispatched s"
    "flags ?s = (flags s)[canceled req := True]"
    by (simp_all add: s')
  have fnd: "find_req (requests ?s) k = (if k = h then None else find_req (requests s) k)" for k
    by (simp add: s' find_erase)
  have cl: "canceled req < length (flags s)" using R req unfolding registry_ok_def by blast
  have H': "handles_ok ?s" using H by (simp add: handles_ok_def rest)
  have R': "registry_ok ?s"
    using R unfolding registry_ok_def by (auto simp: rest fnd split: if_splits)
  have lk: "flag_linked ?s w" if "flag_linked s w" for w
    using that
  proof (rule linked_mono)
    show "case find_req (requests ?s) (w_handle w) of
           None \<Rightarrow> (case find_req (requests s) (w_handle w) of
                      None \<Rightarrow> True | Some r \<Rightarrow> flags ?s ! canceled r)
         | Some r' \<Rightarrow> (case find_req (requests s) (w_handle w) of
                      None \<Rightarrow> False | Some r \<Rightarrow> canceled r' = canceled r)"
      using req(1) cl by (auto simp: fnd rest split: option.splits)
    show "flags ?s ! a" if "a < length (flags s)" "flags s ! a" for a
      using that by (cases "a = canceled req") (simp_all add: rest)
  qed (simp_all add: rest)
  have F': "flags_ok ?s"
    using F lk by (auto simp: flags_ok_def rest)
  have D': "docs_ok ?s"
    using D by (auto simp: docs_ok_def rest undelivered_def fnd)
  have C': "calls_ok ?s"
    using C by (simp add: calls_ok_def rest)
  from H' R' F' D' C' show ?thesis by (simp add: inv_def)
qed

lemma OnMessage_reset:
  "OnMessage kPostLoadGame s =
     s\<lparr>flags := fold (\<lambda>kv fl. store_true (canceled (snd kv)) fl) (requests s) (flags s),
       requests := []\<rparr>"
  by (simp add: OnMessage_def)

lemma inv_OnMessage:
  assumes "inv s"
  shows "inv (OnMessage m s)"
proof (cases "m = kPostLoadGame")
  case False
  then show ?thesis using assms by (simp add: OnMessage_def)
next
  case True
  from assms(1) have H: "handles_ok s" and R: "registry_ok s" and F: "flags_ok s"
    and D: "docs_ok s" and C: "calls_ok s" by (simp_all add: inv_def)
  let ?s = "OnMessage m s"
  have rest: "workers ?s = workers s" "lastHandle ?s = lastHandle s"
    "invoked ?s = invoked s" "dispatched ?s = dispatched s" "requests ?s = []"
    "length (flags ?s) = length (flags s)"
    by (simp_all add: True OnMessage_reset length_fold_store)
  have fl: "flags ?s ! a = (flags s ! a \<or> a \<in> (\<lambda>kv. canceled (snd kv)) ` set (requests s))"
    if "a < length (flags s)" for a
    using that by (simp add: True OnMessage_reset nth_fold_store)
  have fnd: "find_req (requests ?s) k = None" for k by (simp add: rest find_req_def)
  have H': "handles_ok ?s" using H by (simp add: handles_ok_def rest)
  have R': "registry_ok ?s" by (simp add: registry_ok_def fnd)
  have lk: "flag_linked ?s w" if "flag_linked s w" for w
    using that
  proof (rule linked_mono)
    show "case find_req (requests ?s) (w_handle w) of
           None \<Rightarrow> (case find_req (requests s) (w_handle w) of
                      None \<Rightarrow> True | Some r \<Rightarrow> flags ?s ! canceled r)
         | Some r' \<Rightarrow> (case find_req (requests s) (w_handle w) of
                      None \<Rightarrow> False | Some r \<Rightarrow> canceled r' = canceled r)"
    proof (cases "find_req (requests s) (w_handle w)")
      case None
      then show ?thesis by (simp add: fnd)
    next
      case (Some q)
      then have "(w_handle w, q) \<in> set (requests s)" by (rule find_in_set)
      then have "canceled q \<in> (\<lambda>kv. canceled (snd kv)) ` set (requests s)" by force
      moreover have "canceled q < length (flags s)" using R Some unfolding registry_ok_def by blast
      ultimately show ?thesis using Some by (simp add: fnd fl)
    qed
    show "flags ?s ! a" if "a < length (flags s)" "flags s ! a" for a
      using that by (simp add: fl)
  qed (simp_all add: rest)
  have F': "flags_ok ?s"
    using F lk by (auto simp: flags_ok_def rest)
  have D': "docs_ok ?s"
    by (simp add: docs_ok_def undelivered_def fnd)
  have C': "calls_ok ?s"
    using C by (simp add: calls_ok_def rest)
  from H' R' F' D' C' show ?thesis by (simp add: inv_def)
qed

lemma inv_step:
  assumes "inv s" "step e ev s = Inr s'"
  shows "inv s'"
proof (cases ev)
  case (E_CreateRequest name vmh url t ks vs isJSON)
  then show ?thesis using assms inv_CreateRequest by blast
next
  case (E_Spawn i)
  show ?thesis
  proof (cases "phase_of s i = Some Starting")
    case True
    then have "s' = spawn i s" using assms(2) E_Spawn by simp
    then show ?thesis using inv_spawn [OF assms(1) True] by simp
  next
    case False
    then have "s' = s" using assms(2) E_Spawn by (auto split: option.splits phase.splits)
    then show ?thesis using assms(1) by simp
  qed
next
  case (E_Complete i r)
  show ?thesis
  proof (cases "phase_of s i = Some Fetching")
    case True
    then have i: "i < length (workers s)" "w_phase (workers s ! i) = Fetching"
      by (auto simp: phase_of_def split: if_splits)
    have "s' = set_phase i Finished s \<or> s' = set_phase i (Queued r) s"
      using assms(2) E_Complete True by (auto split: if_splits)
    then show ?thesis using inv_set_phase [OF assms(1) i(1)] i(2) by auto
  next
    case False
    then have "s' = s" using assms(2) E_Complete by (auto split: option.splits phase.splits)
    then show ?thesis using assms(1) by simp
  qed
next
  case (E_Check i)
  show ?thesis
  proof (cases "\<exists>r. phase_of s i = Some (Queued r)")
    case True
    then obtain r where r: "phase_of s i = Some (Queued r)" by blast
    then have i: "i < length (workers s)" "w_phase (workers s ! i) = Queued r"
      by (auto simp: phase_of_def split: if_splits)
    have "s' = set_phase i Finished s \<or> s' = set_phase i (Locking r) s"
      using assms(2) E_Check r by (auto split: if_splits)
    then show ?thesis using inv_set_phase [OF assms(1) i(1)] i(2) by auto
  next
    case False
    then have "s' = s" using assms(2) E_Check by (auto split: option.splits phase.splits)
    then show ?thesis using assms(1) by simp
  qed
next
  case (E_Deliver i)
  show ?thesis
  proof (cases "\<exists>r. phase_of s i = Some (Locking r)")
    case True
    then obtain r where r: "phase_of s i = Some (Locking r)" by blast
    then have i: "i < length (workers s)" "w_phase (workers s ! i) = Locking r"
      by (auto simp: phase_of_def split: if_splits)
    have "s' = set_phase i Finished
                (deliver e (w_handle (workers s ! i)) (w_isJSON (workers s ! i)) r s)"
      using assms(2) E_Deliver r by simp
    then show ?thesis using inv_deliver [OF assms(1) i] by simp
  next
    case False
    then have "s' = s" using assms(2) E_Deliver by (auto split: option.splits phase.splits)
    then show ?thesis using assms(1) by simp
  qed
next
  case (E_Destroy h caller)
  then show ?thesis using assms inv_Destroy by auto
next
  case (E_Message m)
  then show ?thesis using assms inv_OnMessage by auto
qed

lemma inv_run:
  "inv s \<Longrightarrow> run e tr s = Inr s' \<Longrightarrow> inv s'"
proof (induction tr arbitrary: s)
  case Nil
  then show ?case by simp
next
  case (Cons ev tr)
  then show ?case by (auto split: sum.splits dest: inv_step)
qed

lemma run_append:
  "run e (tr1 @ tr2) s = (case run e tr1 s of Inl err \<Rightarrow> Inl err | Inr s1 \<Rightarrow> run e tr2 s1)"
  by (induction tr1 arbitrary: s) (auto split: sum.splits)

section \<open>Cancelled and reset requests stay silent\<close>

lemma about_unique: "about h c \<Longrightarrow> about k c \<Longrightarrow> h = k"
  by (auto simp: about_def split: list.splits papyrus_arg.splits)

lemma workers_Destroy: "workers (Destroy h c s) = workers s"
  by (simp add: Destroy_def split: option.splits)

lemma workers_OnMessage: "workers (OnMessage m s) = workers s"
  by (simp add: OnMessage_def)

lemma workers_step:
  assumes "step e ev s = Inr s'" "i < length (workers s)"
  shows "i < length (workers s')"
    and "w_handle (workers s' ! i) = w_handle (workers s ! i)"
    and "w_isJSON (workers s' ! i) = w_isJSON (workers s ! i)"
    and "w_phase (workers s ! i) \<noteq> Starting \<Longrightarrow>
           w_phase (workers s' ! i) \<noteq> Starting \<and> w_flag (workers s' ! i) = w_flag (workers s ! i)"
proof -
  have "i < length (workers s') \<and>
     w_handle (workers s' ! i) = w_handle (workers s ! i) \<and>
     w_isJSON (workers s' ! i) = w_isJSON (workers s ! i) \<and>
     (w_phase (workers s ! i) \<noteq> Starting \<longrightarrow>
           w_phase (workers s' ! i) \<noteq> Starting \<and> w_flag (workers s' ! i) = w_flag (workers s ! i))"
  proof (cases ev)
    case (E_CreateRequest name vmh url t ks vs isJSON)
    then have nm: "lastHandle s \<noteq> INT_MAX" using assms(1) by (auto simp: CreateHandle_def split: if_splits)
    show ?thesis using assms E_CreateRequest step_CreateRequest [OF nm]
      by (auto simp: nth_append)
  next
    case (E_Spawn j)
    show ?thesis
    proof (cases "phase_of s j = Some Starting")
      case True
      then have s': "s' = spawn j s" using assms(1) E_Spawn by simp
      from True have "w_phase (workers s ! j) = Starting" by (auto simp: phase_of_def split: if_splits)
      then show ?thesis using assms(2) spawn_effect(1) [of j s]
        by (cases "i = j") (auto simp: s')
    next
      case False
      then have "s' = s" using assms(1) E_Spawn by (auto split: option.splits phase.splits)
      then show ?thesis using assms(2) by simp
    qed
  next
    case (E_Complete j r)
    then show ?thesis using assms
      by (cases "i = j") (auto simp: set_phase_def split: option.splits phase.splits if_splits)
  next
    case (E_Check j)
    then show ?thesis using assms
      by (cases "i = j") (auto simp: set_phase_def split: option.splits phase.splits if_splits)
  next
    case (E_Deliver j)
    then show ?thesis using assms
      by (cases "i = j") (auto simp: set_phase_def deliver_frame split: option.splits phase.splits if_splits)
  next
    case (E_Destroy h caller)
    then show ?thesis using assms by (auto simp: workers_Destroy)
  next
    case (E_Message m)
    then show ?thesis using assms by (auto simp: workers_OnMessage)
  qed
  then show "i < length (workers s')"
    and "w_handle (workers s' ! i) = w_handle (workers s ! i)"
    and "w_isJSON (workers s' ! i) = w_isJSON (workers s ! i)"
    and "w_phase (workers s ! i) \<noteq> Starting \<Longrightarrow>
           w_phase (workers s' ! i) \<noteq> Starting \<and> w_flag (workers s' ! i) = w_flag (workers s ! i)"
    by blast+
qed

lemma workers_run:
  assumes "run e tr s = Inr s'" "i < length (workers s)"
  shows "i < length (workers s') \<and>
     w_handle (workers s' ! i) = w_handle (workers s ! i) \<and>
     w_isJSON (workers s' ! i) = w_isJSON (workers s ! i)"
  using assms
proof (induction tr arbitrary: s)
  case Nil
  then show ?case by simp
next
  case (Cons ev tr)
  from Cons.prems obtain s1 where s1: "step e ev s = Inr s1" "run e tr s1 = Inr s'"
    by (auto split: sum.splits)
  from workers_step [OF s1(1) Cons.prems(2)] Cons.IH [OF s1(2)] show ?case by simp
qed

lemma load_store_true: "load fl a \<Longrightarrow> load (store_true c fl) a"
  by (cases "c < length fl") (auto simp: load_def store_true_def nth_list_update)

lemma invoked_deliver_about:
  "\<exists>cs. invoked (deliver e h j r s) = invoked s @ cs \<and> (\<forall>c \<in> set cs. about h c)"
  by (auto simp: invoked_deliver about_def split: option.splits)

lemma load_mono_step:
  assumes "step e ev s = Inr s'" "load (flags s) a"
  shows "load (flags s') a"
proof (cases ev)
  case (E_CreateRequest name vmh url t ks vs isJSON)
  then have nm: "lastHandle s \<noteq> INT_MAX" using assms(1) by (auto simp: CreateHandle_def split: if_splits)
  show ?thesis using assms E_CreateRequest step_CreateRequest [OF nm]
    by (auto simp: load_def nth_append)
next
  case (E_Spawn j)
  show ?thesis
  proof (cases "phase_of s j = Some Starting")
    case True
    then have s': "s' = spawn j s" using assms(1) E_Spawn by simp
    show ?thesis using assms(2) unfolding s' load_def spawn_effect(2)
      by (auto simp: nth_append split: option.splits)
  next
    case False
    then have "s' = s" using assms(1) E_Spawn by (auto split: option.splits phase.splits)
    then show ?thesis using assms(2) by simp
  qed
next
  case (E_Complete j r)
  then show ?thesis using assms
    by (auto simp: set_phase_def split: option.splits phase.splits if_splits)
next
  case (E_Check j)
  then show ?thesis using assms
    by (auto simp: set_phase_def split: option.splits phase.splits if_splits)
next
  case (E_Deliver j)
  then show ?thesis using assms
    by (auto simp: set_phase_def deliver_frame split: option.splits phase.splits if_splits)
next
  case (E_Destroy h caller)
  then have "s' = Destroy h caller s" using assms(1) by simp
  then show ?thesis using assms(2)
    by (auto simp: Destroy_def load_store_true split: option.splits)
next
  case (E_Message m)
  then have "s' = OnMessage m s" using assms(1) by simp
  then show ?thesis using assms(2)
    by (cases "m = kPostLoadGame") (auto simp: OnMessage_def load_def length_fold_store nth_fold_store)
qed

lemma silenced_step:
  assumes "inv s" "silenced s i" "step e ev s = Inr s'"
  shows "silenced s' i"
    and "filter (about (w_handle (workers s ! i))) (invoked s') =
         filter (about (w_handle (workers s ! i))) (invoked s)"
proof -
  let ?h = "w_handle (workers s ! i)"
  from assms(1) have H: "handles_ok s" and R: "registry_ok s" by (simp_all add: inv_def)
  from assms(2) have i: "i < length (workers s)" and ph: "w_phase (workers s ! i) \<noteq> Starting"
    and gone: "find_req (requests s) ?h = None" and fl: "canceledFlag_load s (workers s ! i)"
    by (simp_all add: silenced_def)
  note ws = workers_step [OF assms(3) i]
  from fl obtain a where a: "w_flag (workers s ! i) = Some a" "load (flags s) a"
    by (auto simp: canceledFlag_load_def split: option.splits)
  have "load (flags s') a" using assms(3) a(2) by (rule load_mono_step)
  then have fl': "canceledFlag_load s' (workers s' ! i)"
    using ws(4) [OF ph] a(1) by (simp add: canceledFlag_load_def)
  have main: "find_req (requests s') ?h = None \<and>
     filter (about ?h) (invoked s') = filter (about ?h) (invoked s)"
  proof (cases ev)
    case (E_CreateRequest name vmh url t ks vs isJSON)
    then have nm: "lastHandle s \<noteq> INT_MAX" using assms(3) by (auto simp: CreateHandle_def split: if_splits)
    have "?h \<noteq> lastHandle s + 1" using fresh_handle(4) [OF H R nm i] .
    then show ?thesis using assms(3) E_CreateRequest step_CreateRequest [OF nm] gone
      by (auto simp: find_emplace)
  next
    case (E_Spawn j)
    show ?thesis
    proof (cases "phase_of s j = Some Starting")
      case True
      then have s': "s' = spawn j s" using assms(3) E_Spawn by simp
      from True have j: "j < length (workers s)" "w_phase (workers s ! j) = Starting"
        by (auto simp: phase_of_def split: if_splits)
      then have "j \<noteq> i" using ph by auto
      then have "w_handle (workers s ! j) \<noteq> ?h" using distinct_handles [OF H j(1) i] by blast
      then show ?thesis using gone by (simp add: s' spawn_effect)
    next
      case False
      then have "s' = s" using assms(3) E_Spawn by (auto split: option.splits phase.splits)
      then show ?thesis using gone by simp
    qed
  next
    case (E_Complete j r)
    then show ?thesis using assms(3) gone
      by (auto simp: set_phase_def split: option.splits phase.splits if_splits)
  next
    case (E_Check j)
    then show ?thesis using assms(3) gone
      by (auto simp: set_phase_def split: option.splits phase.splits if_splits)
  next
    case (E_Deliver j)
    show ?thesis
    proof (cases "\<exists>r. phase_of s j = Some (Locking r)")
      case True
      then obtain r where r: "phase_of s j = Some (Locking r)" by blast
      then have j: "j < length (workers s)" by (auto simp: phase_of_def split: if_splits)
      let ?d = "deliver e (w_handle (workers s ! j)) (w_isJSON (workers s ! j)) r s"
      have s': "s' = set_phase j Finished ?d" using assms(3) E_Deliver r by simp
      have rq: "requests s' = requests ?d" "invoked s' = invoked ?d" by (simp_all add: s' set_phase_def)
      show ?thesis
      proof (cases "j = i")
        case True
        then have "?d = s" using gone by (simp add: deliver_absent)
        then show ?thesis using gone by (simp add: rq)
      next
        case False
        then have ne: "w_handle (workers s ! j) \<noteq> ?h" using distinct_handles [OF H j i] by blast
        have "\<not> about ?h c" if "about (w_handle (workers s ! j)) c" for c
          using that ne about_unique by blast
        moreover obtain cs where "invoked ?d = invoked s @ cs"
          "\<forall>c \<in> set cs. about (w_handle (workers s ! j)) c"
          using invoked_deliver_about by blast
        ultimately have "filter (about ?h) (invoked ?d) = filter (about ?h) (invoked s)"
          by (simp add: filter_empty_conv)
        moreover have "find_req (requests ?d) ?h = None"
          using ne gone by (simp add: find_deliver)
        ultimately show ?thesis by (simp add: rq)
      qed
    next
      case False
      then have "s' = s" using assms(3) E_Deliver by (auto split: option.splits phase.splits)
      then show ?thesis using gone by simp
    qed
  next
    case (E_Destroy h caller)
    then have "s' = Destroy h caller s" using assms(3) by simp
    then show ?thesis using gone
      by (auto simp: Destroy_def find_erase split: option.splits)
  next
    case (E_Message m)
    then have "s' = OnMessage m s" using assms(3) by simp
    then show ?thesis using gone
      by (cases "m = kPostLoadGame") (auto simp: OnMessage_def find_req_def)
  qed
  show "silenced s' i"
    using ws(1,2) ws(4) [OF ph] main fl' by (simp add: silenced_def)
  show "filter (about ?h) (invoked s') = filter (about ?h) (invoked s)"
    using main by simp
qed

lemma silenced_run:
  assumes "inv s" "silenced s i" "run e tr s = Inr s'"
  shows "silenced s' i \<and>
     filter (about (w_handle (workers s ! i))) (invoked s') =
     filter (about (w_handle (workers s ! i))) (invoked s)"
  using assms
proof (induction tr arbitrary: s)
  case Nil
  then show ?case by simp
next
  case (Cons ev tr)
  from Cons.prems obtain s1 where s1: "step e ev s = Inr s1" "run e tr s1 = Inr s'"
    by (auto split: sum.splits)
  have i: "i < length (workers s)" using Cons.prems(2) by (simp add: silenced_def)
  have "inv s1" using Cons.prems(1) s1(1) by (rule inv_step)
  moreover have "silenced s1 i" using Cons.prems(1,2) s1(1) by (rule silenced_step(1))
  ultimately have "silenced s' i \<and>
     filter (about (w_handle (workers s1 ! i))) (invoked s') =
     filter (about (w_handle (workers s1 ! i))) (invoked s1)"
    using s1(2) by (rule Cons.IH)
  then show ?case
    using silenced_step(2) [OF Cons.prems(1,2) s1(1)] workers_step(2) [OF s1(1) i] by simp
qed

lemma silenced_own_step:
  assumes "silenced s i" "ev = E_Complete i r \<or> ev = E_Check i \<or> ev = E_Deliver i"
  shows "case step e ev s of
           Inl err \<Rightarrow> False
         | Inr s' \<Rightarrow> requests s' = requests s \<and> flags s' = flags s \<and>
                    invoked s' = invoked s \<and> dispatched s' = dispatched s \<and>
                    (\<forall>p. phase_of s' i = Some p \<longrightarrow> p = Finished \<or> phase_of s i = Some p)"
proof -
  from assms(1) have i: "i < length (workers s)"
    and gone: "find_req (requests s) (w_handle (workers s ! i)) = None"
    and fl: "canceledFlag_load s (workers s ! i)"
    by (simp_all add: silenced_def)
  show ?thesis using assms(2) i fl gone
    by (auto simp: phase_of_def set_phase_def deliver_absent split: phase.splits)
qed

lemma no_call_before_finish:
  assumes "inv s" "i < length (workers s)" "w_phase (workers s ! i) \<noteq> Finished"
  shows "filter (about (w_handle (workers s ! i))) (invoked s) = []"
proof -
  from assms(1) have H: "handles_ok s" and C: "calls_ok s" by (simp_all add: inv_def)
  have "\<not> about (w_handle (workers s ! i)) c" if c: "c \<in> set (invoked s)" for c
  proof
    assume ab: "about (w_handle (workers s ! i)) c"
    from C c obtain j where j: "j < length (workers s)" "w_phase (workers s ! j) = Finished"
      "about (w_handle (workers s ! j)) c" unfolding calls_ok_def by blast
    then have "w_handle (workers s ! j) = w_handle (workers s ! i)" using ab about_unique by blast
    then have "j = i" using distinct_handles [OF H j(1) assms(2)] by blast
    with j(2) assms(3) show False by simp
  qed
  then show ?thesis by (simp add: filter_empty_conv)
qed

lemma dispatched_subset:
  "inv s \<Longrightarrow> filter (about h) (invoked s) = [] \<Longrightarrow> filter (about h) (dispatched s) = []"
  by (auto simp: inv_def calls_ok_def filter_empty_conv)

lemma silenced_after_Destroy:
  assumes "inv s" "i < length (workers s)" "w_phase (workers s ! i) \<noteq> Starting"
    and "find_req (requests s) (w_handle (workers s ! i)) = Some req" "caller = scriptName req"
  shows "silenced (Destroy (w_handle (workers s ! i)) caller s) i"
proof -
  let ?h = "w_handle (workers s ! i)"
  from assms(1) have F: "flags_ok s" by (simp add: inv_def)
  from F assms(2,3) have "flag_linked s (workers s ! i)" by (auto simp: flags_ok_def)
  with assms(4) obtain a where a: "w_flag (workers s ! i) = Some a" "a < length (flags s)"
    "canceled req = a"
    by (auto simp: flag_linked_def split: option.splits)
  have d: "Destroy ?h caller s = s\<lparr>flags := (flags s)[canceled req := True],
                                requests := erase ?h (requests s)\<rparr>"
    using assms(4,5) by (rule Destroy_effect)
  show ?thesis
    unfolding d using assms(2,3) a
    by (simp add: silenced_def find_erase canceledFlag_load_def load_def)
qed

lemma silenced_after_reset:
  assumes "inv s" "i < length (workers s)" "w_phase (workers s ! i) \<noteq> Starting"
  shows "silenced (OnMessage kPostLoadGame s) i"
proof -
  let ?h = "w_handle (workers s ! i)"
  let ?s = "OnMessage kPostLoadGame s"
  have "inv ?s" using assms(1) by (rule inv_OnMessage)
  then have "flags_ok ?s" by (simp add: inv_def)
  moreover have w: "workers ?s = workers s" by (rule workers_OnMessage)
  ultimately have l: "flag_linked ?s (workers s ! i)"
    using assms(2,3) by (auto simp: flags_ok_def)
  have g: "find_req (requests ?s) ?h = None" by (simp add: OnMessage_reset find_req_def)
  from l g have "canceledFlag_load ?s (workers s ! i)"
    by (auto simp: flag_linked_def canceledFlag_load_def load_def split: option.splits)
  then show ?thesis using assms(2,3) g by (simp add: silenced_def w)
qed

text \<open>
  C1. Take any reachable state in which the thread of a request has been started and its
  delivery has not finished (the thread is in \<open>cpr::Get\<close>, or its task is queued, or the
  task has passed the second flag check and waits for the mutex), and let the owner call
  \<open>Destroy\<close> on the handle while the entry exists. Then, whatever steps follow in
  whatever order, no call of \<open>CallPapyrus\<close> for that handle is ever made and none is
  dispatched, the handle stays out of the registry, and the thread's flag reads true.
\<close>

theorem cancel_before_completion_silences:
  assumes "run e tr1 init = Inr s1"
    and "i < length (workers s1)"
    and "w_phase (workers s1 ! i) \<noteq> Starting" "w_phase (workers s1 ! i) \<noteq> Finished"
    and "find_req (requests s1) (w_handle (workers s1 ! i)) = Some req"
    and "caller = scriptName req"
    and "run e (E_Destroy (w_handle (workers s1 ! i)) caller # tr2) s1 = Inr s2"
  shows "filter (about (w_handle (workers s1 ! i))) (invoked s2) = [] \<and>
         filter (about (w_handle (workers s1 ! i))) (dispatched s2) = [] \<and>
         find_req (requests s2) (w_handle (workers s1 ! i)) = None \<and>
         canceledFlag_load s2 (workers s2 ! i)"
proof -
  let ?h = "w_handle (workers s1 ! i)"
  let ?d = "Destroy ?h caller s1"
  have I: "inv s1" using inv_init assms(1) by (rule inv_run)
  then have Id: "inv ?d" by (rule inv_Destroy)
  have r2: "run e tr2 ?d = Inr s2" using assms(7) by simp
  have I2: "inv s2" using Id r2 by (rule inv_run)
  have sd: "silenced ?d i" using I assms(2,3,5,6) by (rule silenced_after_Destroy)
  have wd: "workers ?d = workers s1" by (rule workers_Destroy)
  have "filter (about ?h) (invoked s1) = []" using I assms(2,4) by (rule no_call_before_finish)
  then have n0: "filter (about ?h) (invoked ?d) = []"
    by (simp add: Destroy_def split: option.splits)
  from silenced_run [OF Id sd r2] have s2: "silenced s2 i"
    and n2: "filter (about ?h) (invoked s2) = []"
    using n0 by (simp_all add: wd)
  have h2: "w_handle (workers s2 ! i) = ?h"
    using workers_run [OF r2, of i] assms(2) by (simp add: wd)
  show ?thesis
    using s2 n2 dispatched_subset [OF I2 n2] h2 by (simp add: silenced_def)
qed

theorem cancel_before_completion_silences_witness:
  "run sample_env [LoadURL ''A'' 7 ''u'' 5000 [] [], E_Spawn 0, E_Complete 0 ok_response,
                   E_Check 0] init = Inr sample_locking \<and>
   0 < length (workers sample_locking) \<and>
   w_phase (workers sample_locking ! 0) = Locking ok_response \<and>
   w_handle (workers sample_locking ! 0) = 1 \<and>
   find_req (requests sample_locking) 1 = Some sample_request \<and>
   ''A'' = scriptName sample_request \<and>
   run sample_env [E_Destroy 1 ''A'', E_Deliver 0] sample_locking = Inr sample_silenced \<and>
   filter (about 1) (invoked sample_silenced) = [] \<and>
   filter (about 1) (dispatched sample_silenced) = [] \<and>
   find_req (requests sample_silenced) 1 = None \<and>
   canceledFlag_load sample_silenced (workers sample_silenced ! 0)"
proof -
  have h1: "run sample_env [LoadURL ''A'' 7 ''u'' 5000 [] [], E_Spawn 0,
                            E_Complete 0 ok_response, E_Check 0] init = Inr sample_locking"
    by (simp add: exec_defs ok_response_def sample_request_def sample_worker_def sample_locking_def sample_silenced_def)
  have h2: "0 < length (workers sample_locking)" by (simp add: sample_locking_def)
  have h3: "w_phase (workers sample_locking ! 0) \<noteq> Starting"
    and h4: "w_phase (workers sample_locking ! 0) \<noteq> Finished"
    and p: "w_phase (workers sample_locking ! 0) = Locking ok_response"
    by (simp_all add: sample_locking_def sample_worker_def)
  have h: "w_handle (workers sample_locking ! 0) = 1"
    by (simp add: sample_locking_def sample_worker_def)
  have h5: "find_req (requests sample_locking) (w_handle (workers sample_locking ! 0))
              = Some sample_request"
    by (simp add: sample_locking_def sample_worker_def find_req_def)
  have h6: "''A'' = scriptName sample_request" by (simp add: sample_request_def)
  have h7: "run sample_env (E_Destroy (w_handle (workers sample_locking ! 0)) ''A''
                            # [E_Deliver 0]) sample_locking = Inr sample_silenced"
    by (simp add: exec_defs ok_response_def sample_request_def sample_worker_def sample_locking_def sample_silenced_def)
  from cancel_before_completion_silences [OF h1 h2 h3 h4 h5 h6 h7] h1 h2 p h h5 h6 h7
  show ?thesis by simp
qed

text \<open>
  C2. Take any reachable state, with any number of requests outstanding, and let the host
  send \<open>kPostLoadGame\<close>. \<open>OnMessage\<close> leaves the registry empty. For every thread that
  was started and had not finished its delivery at that moment, and for every continuation
  of the run: no call of \<open>CallPapyrus\<close> for its handle is ever made or dispatched, and
  each of its own later steps (the return of \<open>cpr::Get\<close>, the task's flag check, the
  task's critical section) leaves the registry, the flags and the two traces as they are.
\<close>

theorem reset_silences_pending_workers:
  assumes "run e tr1 init = Inr s1"
    and "i < length (workers s1)"
    and "w_phase (workers s1 ! i) \<noteq> Starting" "w_phase (workers s1 ! i) \<noteq> Finished"
    and "run e (E_Message kPostLoadGame # tr2) s1 = Inr s2"
    and "ev = E_Complete i r \<or> ev = E_Check i \<or> ev = E_Deliver i"
  shows "requests (OnMessage kPostLoadGame s1) = [] \<and>
         filter (about (w_handle (workers s1 ! i))) (invoked s2) = [] \<and>
         filter (about (w_handle (workers s1 ! i))) (dispatched s2) = [] \<and>
         (case step e ev s2 of
            Inl err \<Rightarrow> False
          | Inr s3 \<Rightarrow> requests s3 = requests s2 \<and> flags s3 = flags s2 \<and>
                     invoked s3 = invoked s2 \<and> dispatched s3 = dispatched s2)"
proof -
  let ?h = "w_handle (workers s1 ! i)"
  let ?d = "OnMessage kPostLoadGame s1"
  have I: "inv s1" using inv_init assms(1) by (rule inv_run)
  then have Id: "inv ?d" by (rule inv_OnMessage)
  have r2: "run e tr2 ?d = Inr s2" using assms(5) by simp
  have I2: "inv s2" using Id r2 by (rule inv_run)
  have sd: "silenced ?d i" using I assms(2,3) by (rule silenced_after_reset)
  have wd: "workers ?d = workers s1" by (rule workers_OnMessage)
  have "filter (about ?h) (invoked s1) = []" using I assms(2,4) by (rule no_call_before_finish)
  then have n0: "filter (about ?h) (invoked ?d) = []" by (simp add: OnMessage_def)
  from silenced_run [OF Id sd r2] have s2: "silenced s2 i"
    and n2: "filter (about ?h) (invoked s2) = []"
    using n0 by (simp_all add: wd)
  have own: "case step e ev s2 of
            Inl err \<Rightarrow> False
          | Inr s3 \<Rightarrow> requests s3 = requests s2 \<and> flags s3 = flags s2 \<and>
                     invoked s3 = invoked s2 \<and> dispatched s3 = dispatched s2"
    using silenced_own_step [OF s2 assms(6), of e] by (auto split: sum.splits)
  have e: "requests ?d = []" by (simp add: OnMessage_def)
  show ?thesis using e n2 dispatched_subset [OF I2 n2] own by blast
qed

theorem reset_silences_pending_workers_witness:
  "run sample_env [LoadURL ''A'' 7 ''u'' 5000 [] [], E_Spawn 0, E_Complete 0 ok_response,
                   E_Check 0] init = Inr sample_locking \<and>
   0 < length (workers sample_locking) \<and>
   w_phase (workers sample_locking ! 0) = Locking ok_response \<and>
   w_handle (workers sample_locking ! 0) = 1 \<and>
   run sample_env [E_Message kPostLoadGame] sample_locking
     = Inr (sample_silenced\<lparr>workers := [sample_worker (Locking ok_response)]\<rparr>) \<and>
   requests (OnMessage kPostLoadGame sample_locking) = [] \<and>
   step sample_env (E_Deliver 0)
       (sample_silenced\<lparr>workers := [sample_worker (Locking ok_response)]\<rparr>)
     = Inr sample_silenced \<and>
   invoked sample_silenced = [] \<and> dispatched sample_silenced = []"
proof -
  have h1: "run sample_env [LoadURL ''A'' 7 ''u'' 5000 [] [], E_Spawn 0,
                            E_Complete 0 ok_response, E_Check 0] init = Inr sample_locking"
    by (simp add: exec_defs ok_response_def sample_request_def sample_worker_def sample_locking_def sample_silenced_def)
  have h2: "0 < length (workers sample_locking)" by (simp add: sample_locking_def)
  have h3: "w_phase (workers sample_locking ! 0) \<noteq> Starting"
    and h4: "w_phase (workers sample_locking ! 0) \<noteq> Finished"
    and p: "w_phase (workers sample_locking ! 0) = Locking ok_response"
    by (simp_all add: sample_locking_def sample_worker_def)
  have h: "w_handle (workers sample_locking ! 0) = 1"
    by (simp add: sample_locking_def sample_worker_def)
  have h5: "run sample_env (E_Message kPostLoadGame # []) sample_locking
     = Inr (sample_silenced\<lparr>workers := [sample_worker (Locking ok_response)]\<rparr>)"
    by (simp add: exec_defs ok_response_def sample_request_def sample_worker_def sample_locking_def sample_silenced_def)
  have h6: "E_Deliver 0 = E_Complete 0 ok_response \<or> E_Deliver 0 = E_Check 0
            \<or> E_Deliver 0 = E_Deliver 0"
    by simp
  have st: "step sample_env (E_Deliver 0)
       (sample_silenced\<lparr>workers := [sample_worker (Locking ok_response)]\<rparr>)
     = Inr sample_silenced"
    by (simp add: exec_defs ok_response_def sample_request_def sample_worker_def sample_locking_def sample_silenced_def)
  from reset_silences_pending_workers [OF h1 h2 h3 h4 h5 h6] h1 h2 p h h5 st
  show ?thesis by (simp add: sample_silenced_def)
qed

section \<open>Delivery keeps the entry\<close>

text \<open>
  C5, as the specification states it: after the delivery action for a handle has run to its
  end, looking the handle up fails. The code does not do that: in the run below the request
  with handle 1 receives a 200 response, the success notification is invoked, the task has
  finished, and the handle is still found.
\<close>

theorem delivery_removes_entry_counterexample:
  "(case run sample_env [LoadURL ''A'' 7 ''u'' 5000 [] [], E_Spawn 0,
                         E_Complete 0 ok_response, E_Check 0, E_Deliver 0] init of
      Inl err \<Rightarrow> False
    | Inr s \<Rightarrow>
        phase_of s 0 = Some Finished \<and>
        invoked s = [\<lparr>c_object = 7, c_script = ''A'', c_method = ''OnRequestSuccess'',
                      c_args = [PInt 1, PString sample_body]\<rparr>] \<and>
        find_req (requests s) 1 \<noteq> None)"
  by (simp add: exec_defs ok_response_def)

lemma removal_needs_cancel_or_reset:
  assumes "step e ev s = Inr s'" "find_req (requests s) k = Some req"
    "find_req (requests s') k = None"
  shows "ev = E_Destroy k (scriptName req) \<or> ev = E_Message kPostLoadGame"
proof (cases ev)
  case (E_CreateRequest name vmh url t ks vs isJSON)
  then have nm: "lastHandle s \<noteq> INT_MAX"
    using assms(1) by (auto simp: CreateHandle_def split: if_splits)
  have "find_req (requests s') k = find_req (requests s) k"
    using assms(1,2) E_CreateRequest step_CreateRequest [OF nm, of e name vmh url t ks vs isJSON]
    by (auto simp: find_emplace)
  then show ?thesis using assms(2,3) by simp
next
  case (E_Spawn i)
  have "find_req (requests s') k = find_req (requests s) k"
  proof (cases "phase_of s i = Some Starting")
    case True
    then have "s' = spawn i s" using assms(1) E_Spawn by simp
    then show ?thesis using assms(2) by (simp add: spawn_effect(3))
  next
    case False
    then have "s' = s" using assms(1) E_Spawn by (auto split: option.splits phase.splits)
    then show ?thesis by simp
  qed
  then show ?thesis using assms(2,3) by simp
next
  case (E_Complete i r)
  then have "requests s' = requests s" using assms(1)
    by (auto simp: set_phase_def split: option.splits phase.splits if_splits)
  then show ?thesis using assms(2,3) by simp
next
  case (E_Check i)
  then have "requests s' = requests s" using assms(1)
    by (auto simp: set_phase_def split: option.splits phase.splits if_splits)
  then show ?thesis using assms(2,3) by simp
next
  case (E_Deliver i)
  have "map fst (requests s') = map fst (requests s)"
    using assms(1) E_Deliver
    by (auto simp: set_phase_def keys_deliver split: option.splits phase.splits)
  then have "find_req (requests s') k = None \<longleftrightarrow> find_req (requests s) k = None"
    by (simp add: find_None_keys)
  then show ?thesis using assms(2,3) by simp
next
  case (E_Destroy h caller)
  then have s': "s' = Destroy h caller s" using assms(1) by simp
  show ?thesis
  proof (cases "h = k \<and> caller = scriptName req")
    case True
    then show ?thesis using E_Destroy by simp
  next
    case False
    then have "find_req (requests s') k = find_req (requests s) k"
      using assms(2) by (auto simp: s' Destroy_def find_erase split: option.splits)
    then show ?thesis using assms(2,3) by simp
  qed
next
  case (E_Message m)
  show ?thesis
  proof (cases "m = kPostLoadGame")
    case True
    then show ?thesis using E_Message by simp
  next
    case False
    then have "s' = s" using assms(1) E_Message by (simp add: OnMessage_def)
    then show ?thesis using assms(2,3) by simp
  qed
qed

text \<open>
  C5, amended: the delivery action removes no entry and adds none, whatever the response:
  the registry holds the same handles after it as before, so a handle that was found
  before the delivery is found after it. Entries leave the registry in \<open>Destroy\<close> by
  the owner and in \<open>OnMessage\<close> on \<open>kPostLoadGame\<close> only: whenever a step of any
  kind turns a handle that was found into one that is not, the step is a \<open>Destroy\<close> of
  that handle called under the script name stored in its entry, or it is that message.
\<close>

theorem delivery_keeps_entries:
  "map fst (requests (deliver e handle isJSON response s)) = map fst (requests s) \<and>
   (find_req (requests (deliver e handle isJSON response s)) k = None
      \<longleftrightarrow> find_req (requests s) k = None) \<and>
   (case step e (E_Deliver i) s of
      Inl err \<Rightarrow> False
    | Inr s1 \<Rightarrow> map fst (requests s1) = map fst (requests s)) \<and>
   (step e ev s = Inr s' \<and> find_req (requests s) k = Some req \<and>
    find_req (requests s') k = None \<longrightarrow>
      ev = E_Destroy k (scriptName req) \<or> ev = E_Message kPostLoadGame)"
proof -
  have keys: "map fst (requests (deliver e handle isJSON response s)) = map fst (requests s)"
    by (rule keys_deliver)
  have look: "find_req (requests (deliver e handle isJSON response s)) k = None
      \<longleftrightarrow> find_req (requests s) k = None"
    unfolding find_None_keys keys ..
  have st: "case step e (E_Deliver i) s of
      Inl err \<Rightarrow> False
    | Inr s1 \<Rightarrow> map fst (requests s1) = map fst (requests s)"
    by (simp add: set_phase_def keys_deliver split: option.splits phase.splits)
  have only: "step e ev s = Inr s' \<and> find_req (requests s) k = Some req \<and>
      find_req (requests s') k = None \<longrightarrow>
      ev = E_Destroy k (scriptName req) \<or> ev = E_Message kPostLoadGame"
    using removal_needs_cancel_or_reset by blast
  from keys look st only show ?thesis by blast
qed

theorem delivery_keeps_entries_witness:
  "step sample_env (E_Destroy 1 ''A'') sample_locking
     = Inr (sample_locking\<lparr>flags := [True], requests := []\<rparr>) \<and>
   find_req (requests sample_locking) 1 = Some sample_request \<and>
   find_req (requests (sample_locking\<lparr>flags := [True], requests := []\<rparr>)) 1 = None \<and>
   E_Destroy 1 ''A'' = E_Destroy 1 (scriptName sample_request) \<and>
   step sample_env (E_Message kPostLoadGame) sample_locking
     = Inr (sample_locking\<lparr>flags := [True], requests := []\<rparr>) \<and>
   (case step sample_env (E_Deliver 0) sample_locking of
      Inl err \<Rightarrow> False
    | Inr s1 \<Rightarrow> find_req (requests s1) 1 = Some sample_request)"
proof -
  let ?s' = "sample_locking\<lparr>flags := [True], requests := []\<rparr>"
  have h1: "step sample_env (E_Destroy 1 ''A'') sample_locking = Inr ?s'"
    by (simp add: exec_defs ok_response_def sample_request_def sample_worker_def
        sample_locking_def)
  have h2: "find_req (requests sample_locking) 1 = Some sample_request"
    by (simp add: find_req_def sample_locking_def)
  have h3: "find_req (requests ?s') 1 = None"
    by (simp add: find_req_def)
  have h4: "step sample_env (E_Message kPostLoadGame) sample_locking = Inr ?s'"
    by (simp add: exec_defs ok_response_def sample_request_def sample_worker_def
        sample_locking_def)
  have d: "case step sample_env (E_Deliver 0) sample_locking of
      Inl err \<Rightarrow> False
    | Inr s1 \<Rightarrow> find_req (requests s1) 1 = Some sample_request"
    by (simp add: exec_defs ok_response_def sample_request_def sample_worker_def
        sample_locking_def)
  have "E_Destroy 1 ''A'' = E_Destroy 1 (scriptName sample_request)
          \<or> E_Destroy 1 ''A'' = E_Message kPostLoadGame"
    using delivery_keeps_entries [where e = sample_env and ev = "E_Destroy 1 ''A''"
        and s = sample_locking and s' = ?s' and k = 1 and req = sample_request] h1 h2 h3
    by blast
  then have c: "E_Destroy 1 ''A'' = E_Destroy 1 (scriptName sample_request)" by simp
  from h1 h2 h3 c h4 d show ?thesis by blast
qed

section \<open>What a delivery reports\<close>

lemma assign_same: "find_req rs h = Some r \<Longrightarrow> assign h r rs = rs"
  by (induction rs) (auto simp: find_req_def)

lemma ValidateJSON_undelivered: "undelivered s h \<Longrightarrow> \<not> ValidateJSON s h"
  by (auto simp: undelivered_def ValidateJSON_def split: option.splits)

lemma GetJSONValue_undelivered:
  assumes "undelivered s h" "\<exists>ex. get JNull = Inl ex"
  shows "GetJSONValue get s h path d = d"
proof -
  have "GetJSONValue get s h path d = spec_GetField get s h path d"
    using assms(2) by (rule GetJSONValue_spec)
  then show ?thesis using assms(1)
    by (auto simp: spec_GetField_def undelivered_def split: option.splits)
qed

lemma undelivered_pending:
  assumes "run e tr init = Inr s" "i < length (workers s)"
    "w_phase (workers s ! i) \<noteq> Finished \<or> \<not> w_isJSON (workers s ! i)"
  shows "undelivered s (w_handle (workers s ! i))"
proof -
  have "inv s" using inv_init assms(1) by (rule inv_run)
  then have "docs_ok s" by (simp add: inv_def)
  then show ?thesis using assms(2,3) by (simp add: docs_ok_def)
qed


text \<open>
  C7. In a reachable state, let the task of a JSON mode request have passed its flag check,
  with a response of status 200 whose body the JSON library rejects, and let the handle be
  in the registry. The critical section of the task then ends without an error: the registry
  is left exactly as it was, so \<open>ValidateJSON\<close> of the handle is still false; and
  \<open>CallPapyrus\<close> is called once, for \<open>OnRequestSuccess\<close> on the owner's object and
  script, with the handle and the raw body. The virtual machine dispatches that call when the
  object is still bound to the script.
\<close>

theorem malformed_body_is_swallowed:
  assumes "run e tr init = Inr s"
    and "phase_of s i = Some (Locking r)"
    and "status_code r = 200"
    and "w_isJSON (workers s ! i)"
    and "find_req (requests s) (w_handle (workers s ! i)) = Some req"
    and "JSON_parse e (resp_text r) = Inl ex"
  shows "case step e (E_Deliver i) s of
           Inl err \<Rightarrow> False
         | Inr s' \<Rightarrow>
             requests s' = requests s \<and>
             \<not> ValidateJSON s' (w_handle (workers s ! i)) \<and>
             phase_of s' i = Some Finished \<and>
             invoked s' = invoked s @
               [\<lparr>c_object = vmhandle req, c_script = scriptName req,
                 c_method = ''OnRequestSuccess'',
                 c_args = [PInt (w_handle (workers s ! i)), PString (resp_text r)]\<rparr>] \<and>
             dispatched s' =
               (if FindBoundObject e (vmhandle req) (scriptName req)
                then dispatched s @
                  [\<lparr>c_object = vmhandle req, c_script = scriptName req,
                    c_method = ''OnRequestSuccess'',
                    c_args = [PInt (w_handle (workers s ! i)), PString (resp_text r)]\<rparr>]
                else dispatched s)"
proof -
  let ?h = "w_handle (workers s ! i)"
  from assms(2) have i: "i < length (workers s)" and ph: "w_phase (workers s ! i) = Locking r"
    by (auto simp: phase_of_def split: if_splits)
  have u: "undelivered s ?h" using assms(1) i ph by (intro undelivered_pending) simp_all
  have p: "parse_into e (resp_text r) req = req" using assms(6) by (simp add: parse_into_def)
  let ?d = "deliver e ?h True r s"
  have d: "?d = CallPapyrus e (vmhandle req) (scriptName req) ''OnRequestSuccess''
       [PInt ?h, PString (resp_text r)] s"
    using assms(3,5) by (simp add: deliver_success p assign_same)
  have st: "step e (E_Deliver i) s = Inr (set_phase i Finished ?d)"
    using assms(2,4) by simp
  have rq: "requests (set_phase i Finished ?d) = requests s"
    by (simp add: set_phase_def d CallPapyrus_frame)
  have v: "\<not> ValidateJSON (set_phase i Finished ?d) ?h"
    using u by (simp add: ValidateJSON_def rq undelivered_def split: option.splits)
  have f: "phase_of (set_phase i Finished ?d) i = Some Finished"
    using i by (simp add: phase_of_def set_phase_def deliver_frame)
  show ?thesis
    unfolding st using rq v f by (simp add: set_phase_def d CallPapyrus_frame)
qed


theorem malformed_body_is_swallowed_witness:
  "run sample_env [LoadJSON ''A'' 7 ''u'' 5000 [] [], E_Spawn 0,
                   E_Complete 0 malformed_response, E_Check 0] init
     = Inr (sample_json_locking malformed_response) \<and>
   phase_of (sample_json_locking malformed_response) 0 = Some (Locking malformed_response) \<and>
   status_code malformed_response = 200 \<and>
   w_isJSON (workers (sample_json_locking malformed_response) ! 0) \<and>
   find_req (requests (sample_json_locking malformed_response)) 1 = Some sample_request \<and>
   JSON_parse sample_env (resp_text malformed_response) = Inl parse_error \<and>
   (case step sample_env (E_Deliver 0) (sample_json_locking malformed_response) of
      Inl err \<Rightarrow> False
    | Inr s' \<Rightarrow>
        \<not> ValidateJSON s' 1 \<and>
        invoked s' = [\<lparr>c_object = 7, c_script = ''A'', c_method = ''OnRequestSuccess'',
                       c_args = [PInt 1, PString ''{oops'']\<rparr>])"
proof -
  let ?s = "sample_json_locking malformed_response"
  have h1: "run sample_env [LoadJSON ''A'' 7 ''u'' 5000 [] [], E_Spawn 0,
                   E_Complete 0 malformed_response, E_Check 0] init = Inr ?s"
    by (simp add: exec_defs ValidateJSON_def malformed_response_def sample_request_def sample_worker_def sample_json_locking_def)
  have h2: "phase_of ?s 0 = Some (Locking malformed_response)"
    by (simp add: exec_defs ValidateJSON_def malformed_response_def sample_request_def sample_worker_def sample_json_locking_def)
  have h3: "status_code malformed_response = 200" by (simp add: malformed_response_def)
  have h4: "w_isJSON (workers ?s ! 0)" by (simp add: exec_defs ValidateJSON_def malformed_response_def sample_request_def sample_worker_def sample_json_locking_def)
  have h5: "find_req (requests ?s) (w_handle (workers ?s ! 0)) = Some sample_request"
    by (simp add: exec_defs ValidateJSON_def malformed_response_def sample_request_def sample_worker_def sample_json_locking_def)
  have h6: "JSON_parse sample_env (resp_text malformed_response) = Inl parse_error"
    by (simp add: exec_defs ValidateJSON_def malformed_response_def sample_request_def sample_worker_def sample_json_locking_def)
  from malformed_body_is_swallowed [OF h1 h2 h3 h4 h5 h6] h1 h2 h3 h4 h5 h6
  show ?thesis by (simp add: exec_defs ValidateJSON_def malformed_response_def sample_request_def sample_worker_def sample_json_locking_def split: sum.splits)
qed


text \<open>
  C8. In a reachable state, let the task of a request have passed its flag check with a
  response whose status is not 200 (a transport failure has status 0), and let the handle be
  in the registry. The critical section then calls \<open>CallPapyrus\<close> once, for
  \<open>OnRequestFail\<close> on the owner's object and script, with the handle and the status code
  as received; no call for \<open>OnRequestSuccess\<close> is made; the registry is left as it was
  and \<open>ValidateJSON\<close> of the handle is false.
\<close>

theorem failure_status_is_reported:
  assumes "run e tr init = Inr s"
    and "phase_of s i = Some (Locking r)"
    and "status_code r \<noteq> 200"
    and "find_req (requests s) (w_handle (workers s ! i)) = Some req"
  shows "case step e (E_Deliver i) s of
           Inl err \<Rightarrow> False
         | Inr s' \<Rightarrow>
             requests s' = requests s \<and>
             \<not> ValidateJSON s' (w_handle (workers s ! i)) \<and>
             phase_of s' i = Some Finished \<and>
             invoked s' = invoked s @
               [\<lparr>c_object = vmhandle req, c_script = scriptName req,
                 c_method = ''OnRequestFail'',
                 c_args = [PInt (w_handle (workers s ! i)), PInt (status_code r)]\<rparr>] \<and>
             dispatched s' =
               (if FindBoundObject e (vmhandle req) (scriptName req)
                then dispatched s @
                  [\<lparr>c_object = vmhandle req, c_script = scriptName req,
                    c_method = ''OnRequestFail'',
                    c_args = [PInt (w_handle (workers s ! i)), PInt (status_code r)]\<rparr>]
                else dispatched s)"
proof -
  let ?h = "w_handle (workers s ! i)"
  let ?j = "w_isJSON (workers s ! i)"
  from assms(2) have i: "i < length (workers s)" and ph: "w_phase (workers s ! i) = Locking r"
    by (auto simp: phase_of_def split: if_splits)
  have u: "undelivered s ?h" using assms(1) i ph by (intro undelivered_pending) simp_all
  let ?d = "deliver e ?h ?j r s"
  have d: "?d = CallPapyrus e (vmhandle req) (scriptName req) ''OnRequestFail''
       [PInt ?h, PInt (status_code r)] s"
    using assms(3,4) by (simp add: deliver_fail)
  have st: "step e (E_Deliver i) s = Inr (set_phase i Finished ?d)"
    using assms(2) by simp
  have rq: "requests (set_phase i Finished ?d) = requests s"
    by (simp add: set_phase_def d CallPapyrus_frame)
  have v: "\<not> ValidateJSON (set_phase i Finished ?d) ?h"
    using u by (simp add: ValidateJSON_def rq undelivered_def split: option.splits)
  have f: "phase_of (set_phase i Finished ?d) i = Some Finished"
    using i by (simp add: phase_of_def set_phase_def deliver_frame)
  show ?thesis
    unfolding st using rq v f by (simp add: set_phase_def d CallPapyrus_frame)
qed


theorem failure_status_is_reported_witness:
  "run sample_env [LoadJSON ''A'' 7 ''u'' 5000 [] [], E_Spawn 0,
                   E_Complete 0 not_found_response, E_Check 0] init
     = Inr (sample_json_locking not_found_response) \<and>
   phase_of (sample_json_locking not_found_response) 0 = Some (Locking not_found_response) \<and>
   status_code not_found_response \<noteq> 200 \<and>
   find_req (requests (sample_json_locking not_found_response)) 1 = Some sample_request \<and>
   (case step sample_env (E_Deliver 0) (sample_json_locking not_found_response) of
      Inl err \<Rightarrow> False
    | Inr s' \<Rightarrow>
        \<not> ValidateJSON s' 1 \<and>
        invoked s' = [\<lparr>c_object = 7, c_script = ''A'', c_method = ''OnRequestFail'',
                       c_args = [PInt 1, PInt 404]\<rparr>])"
proof -
  let ?s = "sample_json_locking not_found_response"
  have h1: "run sample_env [LoadJSON ''A'' 7 ''u'' 5000 [] [], E_Spawn 0,
                   E_Complete 0 not_found_response, E_Check 0] init = Inr ?s"
    by (simp add: exec_defs ValidateJSON_def not_found_response_def sample_request_def sample_worker_def sample_json_locking_def)
  have h2: "phase_of ?s 0 = Some (Locking not_found_response)"
    by (simp add: exec_defs ValidateJSON_def not_found_response_def sample_request_def sample_worker_def sample_json_locking_def)
  have h3: "status_code not_found_response \<noteq> 200" by (simp add: not_found_response_def)
  have h4: "find_req (requests ?s) (w_handle (workers ?s ! 0)) = Some sample_request"
    by (simp add: exec_defs ValidateJSON_def not_found_response_def sample_request_def sample_worker_def sample_json_locking_def)
  from failure_status_is_reported [OF h1 h2 h3 h4] h1 h2 h3 h4
  show ?thesis by (simp add: exec_defs ValidateJSON_def not_found_response_def sample_request_def sample_worker_def sample_json_locking_def split: sum.splits)
qed


text \<open>
  C10. Let \<open>LoadURL\<close> be called in any reachable state and return the handle \<open>h\<close>. In
  every state of every continuation of the run (before the thread starts, while it waits,
  after its delivery, after a cancel or a reset) \<open>ValidateJSON h\<close> is false and each of
  the four accessors returns the default it is given, for every path.
\<close>

theorem LoadURL_never_validates:
  assumes "run e tr1 init = Inr s1"
    and "CreateHandle name vmh s1 = Inr (h, s1')"
    and "run e (LoadURL name vmh url t ks vs # tr2) s1 = Inr s2"
  shows "\<not> ValidateJSON s2 h \<and>
         GetJSONString s2 h path ds = ds \<and>
         GetJSONInt fp s2 h path di = di \<and>
         GetJSONFloat fp s2 h path df = df \<and>
         GetJSONBool s2 h path db = db"
proof -
  let ?n = "length (workers s1)"
  from assms(2) have nm: "lastHandle s1 \<noteq> INT_MAX" and h: "h = lastHandle s1 + 1"
    by (auto simp: CreateHandle_def Let_def split: if_splits)
  obtain sa where sa: "step e (LoadURL name vmh url t ks vs) s1 = Inr sa"
    and r2: "run e tr2 sa = Inr s2"
    using assms(3) by (auto split: sum.splits)
  have w: "?n < length (workers sa)" "w_handle (workers sa ! ?n) = h"
    "\<not> w_isJSON (workers sa ! ?n)"
    using sa step_CreateRequest [OF nm, of e name vmh url t ks vs False]
    by (auto simp: LoadURL_def h)
  from workers_run [OF r2 w(1)] w have w2: "?n < length (workers s2)"
    "w_handle (workers s2 ! ?n) = h" "\<not> w_isJSON (workers s2 ! ?n)"
    by simp_all
  have "run e (tr1 @ LoadURL name vmh url t ks vs # tr2) init = Inr s2"
    using assms(1,3) by (simp add: run_append)
  then have "undelivered s2 (w_handle (workers s2 ! ?n))"
    using w2 by (intro undelivered_pending) simp_all
  then have u: "undelivered s2 h" by (simp add: w2)
  have a: "GetJSONString s2 h path ds = ds"
    unfolding GetJSONString_def using u by (rule GetJSONValue_undelivered) (simp add: get_string_def)
  have b: "GetJSONInt fp s2 h path di = di"
    unfolding GetJSONInt_def using u by (rule GetJSONValue_undelivered) (simp add: get_int_def)
  have c: "GetJSONFloat fp s2 h path df = df"
    unfolding GetJSONFloat_def using u by (rule GetJSONValue_undelivered) (simp add: get_float_def)
  have d: "GetJSONBool s2 h path db = db"
    unfolding GetJSONBool_def using u by (rule GetJSONValue_undelivered) (simp add: get_bool_def)
  from ValidateJSON_undelivered [OF u] a b c d show ?thesis by blast
qed

theorem LoadURL_never_validates_witness:
  "run sample_env [] init = Inr init \<and>
   CreateHandle ''A'' 7 init = Inr (1, sample_created) \<and>
   run sample_env [LoadURL ''A'' 7 ''u'' 5000 [] [], E_Spawn 0, E_Complete 0 ok_response,
                   E_Check 0, E_Deliver 0] init = Inr sample_delivered \<and>
   \<not> ValidateJSON sample_delivered 1 \<and>
   GetJSONString sample_delivered 1 ''/a/b'' ''x'' = ''x'' \<and>
   GetJSONInt sample_fp sample_delivered 1 ''/a/b'' (- 1) = - 1 \<and>
   GetJSONFloat sample_fp sample_delivered 1 ''/a/b'' 5 = 5 \<and>
   GetJSONBool sample_delivered 1 ''/a/b'' True = True"
proof -
  have h1: "run sample_env [] init = Inr init" by simp
  have h2: "CreateHandle ''A'' 7 init = Inr (1, sample_created)"
    by (simp add: exec_defs ok_response_def sample_request_def sample_worker_def sample_created_def sample_delivered_def)
  have h3: "run sample_env (LoadURL ''A'' 7 ''u'' 5000 [] [] # [E_Spawn 0,
              E_Complete 0 ok_response, E_Check 0, E_Deliver 0]) init = Inr sample_delivered"
    by (simp add: exec_defs ok_response_def sample_request_def sample_worker_def sample_created_def sample_delivered_def)
  from LoadURL_never_validates [OF h1 h2 h3] h1 h2 h3
  show ?thesis by simp
qed


section \<open>The handles that are handed out\<close>

lemma handles_listed:
  assumes "handles_ok s"
  shows "map (\<lambda>w. sint (w_handle w)) (workers s) = map int [1..<Suc (length (workers s))]"
proof (rule nth_equalityI)
  show "length (map (\<lambda>w. sint (w_handle w)) (workers s))
          = length (map int [1..<Suc (length (workers s))])"
    by (simp del: upt_Suc)
next
  fix i assume "i < length (map (\<lambda>w. sint (w_handle w)) (workers s))"
  then have i: "i < length (workers s)" by simp
  then have "w_handle (workers s ! i) = of_nat (Suc i)" "Suc i < 2 ^ 31"
    using assms by (auto simp: handles_ok_def)
  then have "sint (w_handle (workers s ! i)) = int (Suc i)"
    using handle_sint by metis
  moreover have "[1..<Suc (length (workers s))] ! i = Suc i"
    using i by (simp add: nth_upt del: upt_Suc)
  ultimately show "map (\<lambda>w. sint (w_handle w)) (workers s) ! i
                     = map int [1..<Suc (length (workers s))] ! i"
    using i by (simp del: upt_Suc)
qed

lemma step_defined:
  assumes "inv s" "length (workers s) + (if is_alloc ev then 1 else 0) < 2 ^ 31"
  shows "\<exists>s'. step e ev s = Inr s' \<and>
           length (workers s') = length (workers s) + (if is_alloc ev then 1 else 0)"
proof (cases ev)
  case (E_CreateRequest name vmh url t ks vs isJSON)
  from assms(1) have l: "lastHandle s = of_nat (length (workers s))"
    by (simp add: inv_def handles_ok_def)
  have lt: "Suc (length (workers s)) < 2 ^ 31" using assms(2) E_CreateRequest by (simp add: is_alloc_def)
  have "lastHandle s \<noteq> INT_MAX"
  proof
    assume "lastHandle s = INT_MAX"
    then have "(of_nat (length (workers s)) :: int32) = of_nat 2147483647"
      by (simp add: l INT_MAX_def)
    then have "length (workers s) = 2147483647"
      using lt by (intro handle_inj) simp_all
    with lt show False by simp
  qed
  then show ?thesis using E_CreateRequest step_CreateRequest [of s e name vmh url t ks vs isJSON]
    by (simp add: is_alloc_def)
next
  case (E_Spawn i)
  then show ?thesis using spawn_effect(1) [of i s]
    by (auto simp: is_alloc_def split: option.splits phase.splits)
next
  case (E_Complete i r)
  then show ?thesis
    by (auto simp: is_alloc_def set_phase_def split: option.splits phase.splits)
next
  case (E_Check i)
  then show ?thesis
    by (auto simp: is_alloc_def set_phase_def split: option.splits phase.splits)
next
  case (E_Deliver i)
  then show ?thesis
    by (auto simp: is_alloc_def set_phase_def deliver_frame split: option.splits phase.splits)
next
  case (E_Destroy h c)
  then show ?thesis by (simp add: is_alloc_def workers_Destroy)
next
  case (E_Message m)
  then show ?thesis by (simp add: is_alloc_def workers_OnMessage)
qed

lemma run_defined:
  assumes "inv s" "length (workers s) + length (filter is_alloc tr) < 2 ^ 31"
  shows "\<exists>s'. run e tr s = Inr s' \<and>
           length (workers s') = length (workers s) + length (filter is_alloc tr)"
  using assms
proof (induction tr arbitrary: s)
  case Nil
  then show ?case by simp
next
  case (Cons ev tr)
  have "length (workers s) + (if is_alloc ev then 1 else 0) < 2 ^ 31"
    using Cons.prems(2) by (auto split: if_splits)
  with Cons.prems(1) obtain s1 where s1: "step e ev s = Inr s1"
    "length (workers s1) = length (workers s) + (if is_alloc ev then 1 else 0)"
    using step_defined by blast
  have "inv s1" using Cons.prems(1) s1(1) by (rule inv_step)
  moreover have "length (workers s1) + length (filter is_alloc tr) < 2 ^ 31"
    using Cons.prems(2) s1(2) by (auto split: if_splits)
  ultimately obtain s' where "run e tr s1 = Inr s'"
    "length (workers s') = length (workers s1) + length (filter is_alloc tr)"
    using Cons.IH by blast
  then show ?case using s1 by (auto split: if_splits)
qed

lemma gone_silenced:
  assumes "inv s" "i < length (workers s)" "w_phase (workers s ! i) \<noteq> Starting"
    "find_req (requests s) (w_handle (workers s ! i)) = None"
  shows "silenced s i"
proof -
  from assms(1) have "flags_ok s" by (simp add: inv_def)
  then have "flag_linked s (workers s ! i)" using assms(2,3) by (auto simp: flags_ok_def)
  then have "canceledFlag_load s (workers s ! i)"
    using assms(4) by (auto simp: flag_linked_def canceledFlag_load_def load_def split: option.splits)
  then show ?thesis using assms(2-4) by (simp add: silenced_def)
qed

lemma filter_alloc_replicate:
  "length (filter is_alloc (replicate n (LoadURL name vmh url t ks vs))) = n"
  by (induction n) (simp_all add: is_alloc_def LoadURL_def)


text \<open>
  C3, as the specification states it, speaks of every sequence of allocations. The counter
  is a 32-bit \<open>int\<close>: after \<open>2 ^ 31 - 1\<close> calls \<open>lastHandle\<close> is the largest
  \<open>int\<close>, and the next call overflows it. That is undefined behaviour, the call has no
  handle to return; where the increment wraps around, as it does on the machines the plugin
  runs on, the handle it returns is \<open>- 2 ^ 31\<close>, neither positive nor above its
  predecessor.
\<close>

theorem handles_overflow_counterexample:
  "run sample_env (replicate 2147483648 (LoadURL ''A'' 7 ''u'' 5000 [] [])) init
     = Inl SignedOverflow \<and>
   sint (INT_MAX + 1) = - 2147483648"
proof -
  define n :: nat where "n = 2147483647"
  define c where "c = LoadURL ''A'' 7 ''u'' 5000 [] []"
  have big: "(2147483648 :: nat) = Suc n" by (simp add: n_def)
  have "length (workers init) + length (filter is_alloc (replicate n c)) < 2 ^ 31"
    unfolding c_def filter_alloc_replicate by (simp add: n_def init_def)
  with inv_init obtain s where s: "run sample_env (replicate n c) init = Inr s"
    "length (workers s) = length (workers init) + length (filter is_alloc (replicate n c))"
    using run_defined by blast
  have len: "length (workers s) = n"
    using s(2) unfolding c_def filter_alloc_replicate by (simp add: init_def)
  have "inv s" using inv_init s(1) by (rule inv_run)
  then have "lastHandle s = of_nat n" using len by (simp add: inv_def handles_ok_def)
  then have "lastHandle s = INT_MAX" by (simp add: n_def INT_MAX_def)
  then have st: "step sample_env c s = Inl SignedOverflow"
    by (simp add: c_def LoadURL_def CreateHandle_def)
  have "replicate (Suc n) c = replicate n c @ [c]"
    by (simp add: replicate_append_same)
  then have "run sample_env (replicate (Suc n) c) init = Inl SignedOverflow"
    using s(1) st by (simp add: run_append del: replicate.simps)
  moreover have "sint (INT_MAX + 1) = - 2147483648" by (simp add: INT_MAX_def)
  ultimately show ?thesis unfolding big c_def by blast
qed


text \<open>
  C3, amended. In every run with fewer than \<open>2 ^ 31\<close> calls of \<open>LoadURL\<close> and
  \<open>LoadJSON\<close>, with \<open>Destroy\<close>, messages and worker steps interleaved in any way, every
  call returns, the handles returned are \<open>1, 2, 3, ...\<close> in the order of the calls (so
  positive, strictly increasing and never repeated), \<open>lastHandle\<close> is their number, and a
  handle that is absent from the registry at a moment when the thread of its request has been
  started is absent at every later moment of the run.
\<close>

theorem handles_increase_below_overflow:
  assumes "length (filter is_alloc (tr1 @ tr2)) < 2 ^ 31"
  shows "case run e tr1 init of
           Inl err \<Rightarrow> False
         | Inr s1 \<Rightarrow>
            (case run e tr2 s1 of
               Inl err \<Rightarrow> False
             | Inr s2 \<Rightarrow>
                 map (\<lambda>w. sint (w_handle w)) (workers s2)
                   = map int [1..<Suc (length (filter is_alloc (tr1 @ tr2)))] \<and>
                 sint (lastHandle s2) = int (length (filter is_alloc (tr1 @ tr2))) \<and>
                 (\<forall>i < length (workers s1).
                    w_phase (workers s1 ! i) \<noteq> Starting \<and>
                    find_req (requests s1) (w_handle (workers s1 ! i)) = None \<longrightarrow>
                    find_req (requests s2) (w_handle (workers s1 ! i)) = None))"
proof -
  have "length (workers init) + length (filter is_alloc (tr1 @ tr2)) < 2 ^ 31"
    using assms by (simp add: init_def)
  with inv_init obtain s2 where s2: "run e (tr1 @ tr2) init = Inr s2"
    and len: "length (workers s2) = length (workers init) + length (filter is_alloc (tr1 @ tr2))"
    using run_defined by blast
  then obtain s1 where s1: "run e tr1 init = Inr s1" and r2: "run e tr2 s1 = Inr s2"
    by (auto simp: run_append split: sum.splits)
  have I1: "inv s1" using inv_init s1 by (rule inv_run)
  have I2: "inv s2" using I1 r2 by (rule inv_run)
  then have H2: "handles_ok s2" by (simp add: inv_def)
  have n: "length (workers s2) = length (filter is_alloc (tr1 @ tr2))"
    using len by (simp add: init_def)
  have a: "map (\<lambda>w. sint (w_handle w)) (workers s2)
             = map int [1..<Suc (length (filter is_alloc (tr1 @ tr2)))]"
    using handles_listed [OF H2] unfolding n .
  have b: "sint (lastHandle s2) = int (length (filter is_alloc (tr1 @ tr2)))"
    using H2 handle_sint [of "length (workers s2)"] unfolding n [symmetric]
    by (simp add: handles_ok_def)
  have c: "find_req (requests s2) (w_handle (workers s1 ! i)) = None"
    if "i < length (workers s1)" "w_phase (workers s1 ! i) \<noteq> Starting"
      "find_req (requests s1) (w_handle (workers s1 ! i)) = None" for i
  proof -
    have "silenced s1 i" using I1 that by (rule gone_silenced)
    then have "silenced s2 i" using silenced_run [OF I1 _ r2] by blast
    moreover have "w_handle (workers s2 ! i) = w_handle (workers s1 ! i)"
      using workers_run [OF r2 that(1)] by simp
    ultimately show ?thesis by (simp add: silenced_def)
  qed
  show ?thesis using a b c by (simp add: s1 r2)
qed


theorem handles_increase_below_overflow_witness:
  "length (filter is_alloc ([LoadURL ''A'' 7 ''u'' 5000 [] [], E_Spawn 0, E_Destroy 1 ''A'']
            @ [LoadJSON ''B'' 8 ''v'' 5000 [] [], E_Spawn 1])) < 2 ^ 31 \<and>
   (case run sample_env [LoadURL ''A'' 7 ''u'' 5000 [] [], E_Spawn 0, E_Destroy 1 ''A''] init of
      Inl err \<Rightarrow> False
    | Inr s1 \<Rightarrow>
        0 < length (workers s1) \<and> w_phase (workers s1 ! 0) \<noteq> Starting \<and>
        w_handle (workers s1 ! 0) = 1 \<and> find_req (requests s1) 1 = None \<and>
        (case run sample_env [LoadJSON ''B'' 8 ''v'' 5000 [] [], E_Spawn 1] s1 of
           Inl err \<Rightarrow> False
         | Inr s2 \<Rightarrow>
             map (\<lambda>w. sint (w_handle w)) (workers s2) = [1, 2] \<and>
             sint (lastHandle s2) = 2 \<and>
             find_req (requests s2) 1 = None))"
proof -
  have h: "length (filter is_alloc ([LoadURL ''A'' 7 ''u'' 5000 [] [], E_Spawn 0, E_Destroy 1 ''A'']
            @ [LoadJSON ''B'' 8 ''v'' 5000 [] [], E_Spawn 1])) < 2 ^ 31"
    by (simp add: is_alloc_def LoadURL_def LoadJSON_def)
  from handles_increase_below_overflow [OF h, of sample_env] h
  show ?thesis by (simp add: exec_defs is_alloc_def)
qed

text \<open>
  The restriction to started threads in the last part is needed: \<open>CreateRequest\<close> leaves
  the mutex between \<open>CreateHandle\<close> and \<open>requests[handle]\<close>. When the registry is
  cleared in between, \<open>operator[]\<close> puts the handle back, with an entry that has no owner.
\<close>

lemma create_reset_race:
  "(case run sample_env [LoadURL ''A'' 7 ''u'' 5000 [] [], E_Message kPostLoadGame] init of
      Inl err \<Rightarrow> False
    | Inr s1 \<Rightarrow> find_req (requests s1) 1 = None \<and> phase_of s1 0 = Some Starting \<and>
        (case run sample_env [E_Spawn 0] s1 of
           Inl err \<Rightarrow> False
         | Inr s2 \<Rightarrow> find_req (requests s2) 1 \<noteq> None))"
  by (simp add: exec_defs)

end
